theory Spec2Isabelle
  imports Main
begin

section \<open>The YAML AST as \<^verbatim>\<open>diagnostics.ts\<close> reads it\<close>

text \<open>
  \<^verbatim>\<open>src/workflow/diagnostics.ts\<close> walks the tree that \<^verbatim>\<open>safeLoad\<close> of
  \<^verbatim>\<open>yaml-ast-parser\<close> returns. The code is duck-typed: it reads the fields
  \<^verbatim>\<open>startPosition\<close>, \<^verbatim>\<open>endPosition\<close>, \<^verbatim>\<open>key\<close>, \<^verbatim>\<open>value\<close>, \<^verbatim>\<open>mappings\<close>,
  \<^verbatim>\<open>items\<close> and \<^verbatim>\<open>rawValue\<close> of whatever node it holds, with optional chaining.
  The model therefore keeps one node type whose optional fields are \<open>option\<close>s
  (\<open>None\<close> is JavaScript's \<^verbatim>\<open>undefined\<close>/\<^verbatim>\<open>null\<close>). The field \<^verbatim>\<open>value\<close> is
  written \<open>value'\<close>; it holds a string for a scalar and a node for a mapping entry.
  A key is a scalar whose \<^verbatim>\<open>value\<close> is a string (\<^verbatim>\<open>key: YAMLScalar\<close> in the parser's types).
\<close>

datatype YAMLScalar = YAMLScalar (scalarValue: string)

datatype YAMLNode = YAMLNode
    (startPosition: int) (endPosition: int)
    (key: "YAMLScalar option")
    (value': "YAMLValue option")
    (mappings: "YAMLNode list option")
    (items: "YAMLNode list option")
    (rawValue: "string option")
and YAMLValue = Str string | Node YAMLNode

text \<open>\<^verbatim>\<open>node.key?.value\<close>\<close>

definition keyOf :: "YAMLNode \<Rightarrow> string option" where
  "keyOf node = (case key node of None \<Rightarrow> None | Some k \<Rightarrow> Some (scalarValue k))"

text \<open>
  \<^verbatim>\<open>if (key)\<close>: JavaScript truthiness of an optional string. \<^verbatim>\<open>undefined\<close> and the
  empty string are falsy.
\<close>

definition truthy :: "string option \<Rightarrow> bool" where
  "truthy k = (case k of None \<Rightarrow> False | Some s \<Rightarrow> s \<noteq> [])"

text \<open>\<^verbatim>\<open>if (node.value)\<close>: an object is truthy, a string is truthy unless empty.\<close>

definition value_truthy :: "YAMLValue option \<Rightarrow> bool" where
  "value_truthy v = (case v of None \<Rightarrow> False | Some (Str s) \<Rightarrow> s \<noteq> [] | Some (Node n) \<Rightarrow> True)"

text \<open>
  \<^verbatim>\<open>node.mappings ?? node.value?.mappings ?? node.value?.items ?? []\<close>. A string has
  neither \<^verbatim>\<open>mappings\<close> nor \<^verbatim>\<open>items\<close>. The node's own \<^verbatim>\<open>items\<close> are not consulted.
\<close>

definition children :: "YAMLNode \<Rightarrow> YAMLNode list" where
  "children node =
     (case mappings node of
        Some ms \<Rightarrow> ms
      | None \<Rightarrow>
         (case value' node of
            Some (Node v) \<Rightarrow>
              (case mappings v of
                 Some ms \<Rightarrow> ms
               | None \<Rightarrow> (case items v of Some its \<Rightarrow> its | None \<Rightarrow> []))
          | _ \<Rightarrow> []))"

lemma size_mappings: "mappings v = Some ms \<Longrightarrow> size_list size ms < size v"
  by (cases v) simp

lemma size_items: "items v = Some its \<Longrightarrow> size_list size its < size v"
  by (cases v) simp

lemma size_value: "value' n = Some (Node v) \<Longrightarrow> size v < size n"
  by (cases n) simp

lemma size_list_children: "size_list size (children n) < size n"
proof (cases "mappings n")
  case (Some ms)
  then show ?thesis by (simp add: children_def size_mappings)
next
  case None
  show ?thesis
  proof (cases "value' n")
    case None
    with \<open>mappings n = None\<close> show ?thesis by (cases n) (simp add: children_def)
  next
    case (Some val)
    show ?thesis
    proof (cases val)
      case (Str s)
      with Some \<open>mappings n = None\<close> show ?thesis by (cases n) (simp add: children_def)
    next
      case (Node v)
      with Some have lt: "size v < size n" by (simp add: size_value)
      have "size_list size (children n) < size v"
        using Some Node \<open>mappings n = None\<close>
        by (cases v) (auto simp: children_def split: option.splits)
      with lt show ?thesis by linarith
    qed
  qed
qed

lemma size_list_mem: "x \<in> set xs \<Longrightarrow> size x < Suc (size_list size xs)"
  by (induction xs) auto

lemma children_size: "c \<in> set (children n) \<Longrightarrow> size c < size n"
  using size_list_children [of n] size_list_mem [of c "children n"] by linarith

section \<open>The wildcard collector: \<^verbatim>\<open>getAllMatchingNodes\<close>\<close>

text \<open>
  \<^verbatim>\<open>collect(node, depth)\<close> pushes onto the array \<^verbatim>\<open>nodes\<close> of the enclosing call; the
  model passes the array in and returns it. \<^verbatim>\<open>path[depth]\<close> beyond the end of the
  pattern is \<^verbatim>\<open>undefined\<close>, here \<open>None\<close>. The values \<^verbatim>\<open>collect\<close> returns
  (\<^verbatim>\<open>false\<close>, \<^verbatim>\<open>undefined\<close>) are ignored by every caller and are left out.
  \<open>collect_children\<close> is the \<^verbatim>\<open>for (const child of children)\<close> loop.
\<close>

function collect :: "string list \<Rightarrow> YAMLNode \<Rightarrow> nat \<Rightarrow> YAMLValue list \<Rightarrow> YAMLValue list"
  and collect_children :: "string list \<Rightarrow> YAMLNode list \<Rightarrow> nat \<Rightarrow> YAMLValue list \<Rightarrow> YAMLValue list"
where
  "collect path node depth nodes =
     (let k = keyOf node;
          expectedKey = (if depth < length path then Some (path ! depth) else None)
      in if truthy k \<and> expectedKey \<noteq> Some ''*'' \<and> expectedKey \<noteq> k then nodes
         else if truthy k \<and> int depth = int (length path) - 1 then
           (case value' node of
              Some v \<Rightarrow> if value_truthy (Some v) then nodes @ [v] else nodes
            | None \<Rightarrow> nodes)
         else collect_children path (children node) (if truthy k then depth + 1 else depth) nodes)"
| "collect_children path [] depth nodes = nodes"
| "collect_children path (child # rest) depth nodes =
     collect_children path rest depth (collect path child depth nodes)"
  by pat_completeness auto
termination
  by (relation "measure (\<lambda>a. case a of Inl (p, n, d, acc) \<Rightarrow> size n
                                   | Inr (p, ns, d, acc) \<Rightarrow> size_list size ns)")
     (auto simp: size_list_children)

definition getAllMatchingNodes :: "YAMLNode \<Rightarrow> string list \<Rightarrow> YAMLValue list" where
  "getAllMatchingNodes input path = collect path input 0 []"

section \<open>The locator: \<^verbatim>\<open>findNode\<close>\<close>

text \<open>
  \<^verbatim>\<open>find\<close> pushes onto the array \<^verbatim>\<open>path\<close> of the enclosing \<^verbatim>\<open>findNode\<close> and never
  pops; the model threads the array through every call and returns it with the
  node found (\<open>None\<close> for \<^verbatim>\<open>undefined\<close>). \<open>find_children\<close> is the loop over the
  children, which returns at the first child that finds a node.
\<close>

function find' :: "int \<Rightarrow> YAMLNode \<Rightarrow> string list \<Rightarrow> YAMLNode option \<times> string list"
  and find_children :: "int \<Rightarrow> YAMLNode list \<Rightarrow> string list \<Rightarrow> YAMLNode option \<times> string list"
where
  "find' position node path =
     (if position \<ge> startPosition node \<and> position \<le> endPosition node then
        (let k = keyOf node;
             path1 = (case k of Some s \<Rightarrow> if truthy k then path @ [s] else path | None \<Rightarrow> path)
         in case find_children position (children node) path1 of
              (Some foundNode, path2) \<Rightarrow> (Some foundNode, path2)
            | (None, path2) \<Rightarrow> (Some node, path2))
      else (None, path))"
| "find_children position [] path = (None, path)"
| "find_children position (child # rest) path =
     (case find' position child path of
        (Some foundNode, path1) \<Rightarrow> (Some foundNode, path1)
      | (None, path1) \<Rightarrow> find_children position rest path1)"
  by pat_completeness auto
termination
  by (relation "measure (\<lambda>a. case a of Inl (p, n, acc) \<Rightarrow> size n
                                   | Inr (p, ns, acc) \<Rightarrow> size_list size ns)")
     (auto simp: size_list_children)

definition findNode :: "YAMLNode \<Rightarrow> int \<Rightarrow> YAMLNode option \<times> string list" where
  "findNode input position = find' position input []"

section \<open>Chains, key-paths and spans\<close>

text \<open>
  The traversals above see a tree whose edges are \<open>children\<close>. \<open>chains n\<close> lists every
  chain of nodes that starts at \<open>n\<close> and follows these edges, in depth-first document
  order (a node before its children, children in their listed order). The last node of a
  chain is the node the chain leads to.
\<close>

function chains :: "YAMLNode \<Rightarrow> YAMLNode list list" where
  "chains n = [n] # map ((#) n) (concat (map chains (children n)))"
  by pat_completeness auto
termination
  by (relation "measure size") (auto simp: children_size)

text \<open>
  The key-path of a chain: the keys of its keyed nodes, root first. Which nodes count as
  keyed is the parameter \<open>seg\<close>: \<open>keyOf\<close> counts every node that carries a key,
  \<open>codeKey\<close> only a node whose key passes the code's test \<^verbatim>\<open>if (key)\<close>.
\<close>

fun keys_of :: "(YAMLNode \<Rightarrow> string option) \<Rightarrow> YAMLNode list \<Rightarrow> string list" where
  "keys_of seg [] = []"
| "keys_of seg (n # ns) =
     (case seg n of Some k \<Rightarrow> k # keys_of seg ns | None \<Rightarrow> keys_of seg ns)"

definition codeKey :: "YAMLNode \<Rightarrow> string option" where
  "codeKey n = (if truthy (keyOf n) then keyOf n else None)"

text \<open>
  The segment-wise rule: a segment of the pattern matches a key when it is the wildcard
  or equal to the key; a path matches when it has the pattern's length and every segment
  matches.
\<close>

definition segment_matches :: "string \<Rightarrow> string \<Rightarrow> bool" where
  "segment_matches expected k = (expected = ''*'' \<or> expected = k)"

definition path_matches :: "string list \<Rightarrow> string list \<Rightarrow> bool" where
  "path_matches pattern p = (length p = length pattern \<and> list_all2 segment_matches pattern p)"

text \<open>The value-node of a node, when it has one (\<^verbatim>\<open>if (node.value)\<close>).\<close>

definition value_nodes :: "YAMLNode \<Rightarrow> YAMLValue list" where
  "value_nodes n =
     (case value' n of Some v \<Rightarrow> if value_truthy (Some v) then [v] else [] | None \<Rightarrow> [])"

text \<open>
  What a chain contributes to the collector's result: the
  value-node of the chain's last node when that node is keyed and the key-path of the
  chain (after the keys \<open>pre\<close> of the nodes above the chain) matches the pattern.
\<close>

definition matched ::
  "(YAMLNode \<Rightarrow> string option) \<Rightarrow> string list \<Rightarrow> string list \<Rightarrow> YAMLNode list \<Rightarrow> YAMLValue list" where
  "matched seg pattern pre c =
     (if seg (last c) \<noteq> None \<and> path_matches pattern (pre @ keys_of seg c)
      then value_nodes (last c) else [])"

section \<open>The nodes of the AST\<close>

text \<open>
  The AST itself, apart from any traversal: below a node are the entries of its
  \<^verbatim>\<open>mappings\<close>, its \<^verbatim>\<open>value\<close> when that is a node, and its \<^verbatim>\<open>items\<close>. \<open>ast_chains n\<close>
  lists every chain from \<open>n\<close> to a node of the AST below it, in depth-first document
  order. The value node of an entry and a sequence are nodes of their own here; they carry
  no key, so they add no segment to a key-path.
\<close>

definition subnodes :: "YAMLNode \<Rightarrow> YAMLNode list" where
  "subnodes n =
     (case mappings n of Some ms \<Rightarrow> ms | None \<Rightarrow> []) @
     (case value' n of Some (Node v) \<Rightarrow> [v] | _ \<Rightarrow> []) @
     (case items n of Some its \<Rightarrow> its | None \<Rightarrow> [])"

lemma mem_lt: "x \<in> set xs \<Longrightarrow> size_list size xs < k \<Longrightarrow> size x < k"
  using size_list_mem [of x xs] by linarith

lemma subnodes_size: "c \<in> set (subnodes n) \<Longrightarrow> size c < size n"
  unfolding subnodes_def
  by (auto split: option.splits YAMLValue.splits
        intro: size_value mem_lt [OF _ size_mappings] mem_lt [OF _ size_items])

function ast_chains :: "YAMLNode \<Rightarrow> YAMLNode list list" where
  "ast_chains n = [n] # map ((#) n) (concat (map ast_chains (subnodes n)))"
  by pat_completeness auto
termination
  by (relation "measure size") (auto simp: subnodes_size)

text \<open>
  The collector as the specification words it: the value-nodes of the keyed nodes of the
  AST whose key-path matches the pattern, in document order.
\<close>

definition ast_matching_values ::
  "(YAMLNode \<Rightarrow> string option) \<Rightarrow> YAMLNode \<Rightarrow> string list \<Rightarrow> YAMLValue list" where
  "ast_matching_values seg root pattern = concat (map (matched seg pattern []) (ast_chains root))"

text \<open>
  The shapes the parser builds, with every sequence the value of a mapping entry.
  \<open>item_shaped\<close>: a scalar, or a map whose \<^verbatim>\<open>mappings\<close> are entries. \<open>entry_shaped\<close>: a
  keyed entry with no value, or with a value that is a scalar, a map of entries, or a
  sequence whose items are scalars and maps of entries. A sequence that is the root, or
  an item of another sequence, is in neither.
\<close>

function item_shaped :: "YAMLNode \<Rightarrow> bool" and entry_shaped :: "YAMLNode \<Rightarrow> bool" where
  "item_shaped n =
     (key n = None \<and> items n = None \<and>
      (case mappings n of
         Some ms \<Rightarrow> value' n = None \<and> (\<forall>e \<in> set ms. entry_shaped e)
       | None \<Rightarrow> (case value' n of Some (Str s) \<Rightarrow> True | _ \<Rightarrow> False)))"
| "entry_shaped e =
     (key e \<noteq> None \<and> mappings e = None \<and> items e = None \<and>
      (case value' e of
         None \<Rightarrow> True
       | Some (Str s) \<Rightarrow> False
       | Some (Node v) \<Rightarrow>
           (case items v of
              None \<Rightarrow> item_shaped v
            | Some its \<Rightarrow>
                key v = None \<and> mappings v = None \<and> value' v = None \<and>
                (\<forall>i \<in> set its. item_shaped i))))"
  by pat_completeness auto
termination
proof (relation "measure (\<lambda>a. case a of Inl n \<Rightarrow> size n | Inr e \<Rightarrow> size e)", goal_cases)
  case 1
  then show ?case by simp
next
  case (2 n ms e)
  then show ?case using size_mappings [of n ms] size_list_mem [of e ms] by simp
next
  case (3 e val v)
  then show ?case by (simp add: size_value)
next
  case (4 e val v its i)
  then show ?case
    using size_value [of e v] size_items [of v its] size_list_mem [of i its] by simp
qed

text \<open>The containment test of \<^verbatim>\<open>find\<close>: both ends of the span are included.\<close>

definition in_span :: "int \<Rightarrow> YAMLNode \<Rightarrow> bool" where
  "in_span position node = (position \<ge> startPosition node \<and> position \<le> endPosition node)"

lemma find_Some_mem: "List.find P xs = Some x \<Longrightarrow> x \<in> set xs \<and> P x"
  by (induction xs) (auto split: if_splits)

text \<open>
  The chain that starts at \<open>n\<close> and steps, at every node, to the first listed child whose
  span contains the position, until no child does.
\<close>

function descent :: "int \<Rightarrow> YAMLNode \<Rightarrow> YAMLNode list" where
  "descent position n =
     (case List.find (in_span position) (children n) of
        None \<Rightarrow> [n]
      | Some m \<Rightarrow> n # descent position m)"
  by pat_completeness auto
termination
  by (relation "measure (\<lambda>(p, n). size n)") (auto dest!: find_Some_mem simp: children_size)

text \<open>
  Two shapes a parsed tree usually has: the spans of the children of a node are pairwise
  disjoint, and the span of a child lies within the span of its parent.
\<close>

definition spans_disjoint :: "YAMLNode \<Rightarrow> YAMLNode \<Rightarrow> bool" where
  "spans_disjoint a b = (endPosition a < startPosition b \<or> endPosition b < startPosition a)"

fun pairwise_disjoint :: "YAMLNode list \<Rightarrow> bool" where
  "pairwise_disjoint [] = True"
| "pairwise_disjoint (c # cs) = ((\<forall>d \<in> set cs. spans_disjoint c d) \<and> pairwise_disjoint cs)"

function siblings_disjoint :: "YAMLNode \<Rightarrow> bool" where
  "siblings_disjoint n =
     (pairwise_disjoint (children n) \<and> (\<forall>c \<in> set (children n). siblings_disjoint c))"
  by pat_completeness auto
termination
  by (relation "measure size") (auto simp: children_size)

function spans_nested :: "YAMLNode \<Rightarrow> bool" where
  "spans_nested n =
     (\<forall>c \<in> set (children n).
        startPosition n \<le> startPosition c \<and> endPosition c \<le> endPosition n \<and> spans_nested c)"
  by pat_completeness auto
termination
  by (relation "measure size") (auto simp: children_size)

section \<open>Example trees\<close>

text \<open>
  The four node shapes \<^verbatim>\<open>yaml-ast-parser\<close> builds (\<^verbatim>\<open>newScalar\<close>, \<^verbatim>\<open>newMapping\<close>,
  \<^verbatim>\<open>newMap\<close>, \<^verbatim>\<open>newItems\<close>), used to write the examples: a scalar has a string value and
  its raw text, a mapping entry a key and a value node (or none), a map its entries in
  \<^verbatim>\<open>mappings\<close>, a sequence its \<^verbatim>\<open>items\<close>.
\<close>

definition newScalar :: "int \<Rightarrow> int \<Rightarrow> string \<Rightarrow> string \<Rightarrow> YAMLNode" where
  "newScalar s e v raw = YAMLNode s e None (Some (Str v)) None None (Some raw)"

definition newMapping :: "int \<Rightarrow> int \<Rightarrow> string \<Rightarrow> YAMLNode option \<Rightarrow> YAMLNode" where
  "newMapping s e k v = YAMLNode s e (Some (YAMLScalar k)) (map_option Node v) None None None"

definition newMap :: "int \<Rightarrow> int \<Rightarrow> YAMLNode list \<Rightarrow> YAMLNode" where
  "newMap s e ms = YAMLNode s e None None (Some ms) None None"

definition newItems :: "int \<Rightarrow> int \<Rightarrow> YAMLNode list \<Rightarrow> YAMLNode" where
  "newItems s e its = YAMLNode s e None None None (Some its) None"

text \<open>
  The scenario of the specification, a document of 59 characters:
  \<^verbatim>\<open>jobs:\n  build:\n    steps:\n      - run: |\n          echo hi\n\<close>.
  \<^verbatim>\<open>jobs\<close> starts at offset 0, \<^verbatim>\<open>build\<close> at 8, \<^verbatim>\<open>steps\<close> at 19, the dash at 32,
  \<^verbatim>\<open>run\<close> at 34, the block scalar at 39 and \<^verbatim>\<open>echo hi\<close> at 51.
\<close>

definition ex_scalar :: YAMLNode where
  "ex_scalar = newScalar 39 59 ''echo hi\<newline>'' ''|\<newline>          echo hi\<newline>''"

definition ex_run :: YAMLNode where
  "ex_run = newMapping 34 59 ''run'' (Some ex_scalar)"

definition ex_step :: YAMLNode where
  "ex_step = newMap 34 59 [ex_run]"

definition ex_steps :: YAMLNode where
  "ex_steps = newMapping 19 59 ''steps'' (Some (newItems 32 59 [ex_step]))"

definition ex_build :: YAMLNode where
  "ex_build = newMapping 8 59 ''build'' (Some (newMap 19 59 [ex_steps]))"

definition ex_jobs :: YAMLNode where
  "ex_jobs = newMapping 0 59 ''jobs'' (Some (newMap 8 59 [ex_build]))"

definition ex_root :: YAMLNode where
  "ex_root = newMap 0 59 [ex_jobs]"

text \<open>
  A document whose outer key is the empty string, 13 characters:
  \<^verbatim>\<open>"":\n  run: x\n\<close>. The entry with the empty key spans the document, \<^verbatim>\<open>run\<close>
  starts at offset 6 and the scalar \<^verbatim>\<open>x\<close> at 11.
\<close>

definition ek_scalar :: YAMLNode where
  "ek_scalar = newScalar 11 12 ''x'' ''x''"

definition ek_run :: YAMLNode where
  "ek_run = newMapping 6 12 ''run'' (Some ek_scalar)"

definition ek_entry :: YAMLNode where
  "ek_entry = newMapping 0 12 [] (Some (newMap 6 12 [ek_run]))"

definition ek_root :: YAMLNode where
  "ek_root = newMap 0 12 [ek_entry]"

text \<open>
  A document that is a sequence at its root, 9 characters: \<^verbatim>\<open>- run: x\n\<close>. \<^verbatim>\<open>run\<close>
  starts at offset 2 and the scalar \<^verbatim>\<open>x\<close> at 7.
\<close>

definition sr_scalar :: YAMLNode where
  "sr_scalar = newScalar 7 8 ''x'' ''x''"

definition sr_root :: YAMLNode where
  "sr_root = newItems 0 8 [newMap 2 8 [newMapping 2 8 ''run'' (Some sr_scalar)]]"

section \<open>The regular expressions of the source\<close>

text \<open>
  The source uses two regular expressions: \<^verbatim>\<open>/^(\s*)(.+)$/gm\<close> with \<^verbatim>\<open>matchAll\<close>, where the
  index of a match and the lengths of its two groups are read, and the string
  \<^verbatim>\<open>"(.*)?.github/workflows/(.*).ya?ml"\<close> with \<^verbatim>\<open>String.prototype.match\<close>, where only
  whether there is a match is read. Both are run by the JavaScript engine, a backtracking
  matcher; the model is that matcher for the constructs the two expressions use. A string
  is a list of 8-bit characters here, so the line terminators are LF and CR and the white
  space of \<^verbatim>\<open>\s\<close> is TAB, LF, VT, FF, CR, SPACE and NBSP.
\<close>

datatype regex =
    Chr char
  | Dot
  | Space
  | LineStart
  | LineEnd
  | Then regex regex
  | Star regex
  | Plus regex
  | Opt regex
  | Group nat regex

definition is_line_terminator :: "char \<Rightarrow> bool" where
  "is_line_terminator c = (c = CHR 0x0A \<or> c = CHR 0x0D)"

definition is_white_space :: "char \<Rightarrow> bool" where
  "is_white_space c =
     (c = CHR 0x09 \<or> c = CHR 0x0A \<or> c = CHR 0x0B \<or> c = CHR 0x0C \<or> c = CHR 0x0D \<or>
      c = CHR 0x20 \<or> c = CHR 0xA0)"

text \<open>
  A state of the matcher is the end index reached and the captures: for each group, the
  start and end index of the text it captured last, if any. A matcher maps a state to the
  states it can reach, the one the engine tries first at the head: backtracking takes the
  next of the list.
\<close>

type_synonym captures = "nat \<Rightarrow> (nat \<times> nat) option"
type_synonym mstate = "nat \<times> captures"

text \<open>
  The greedy loop of \<^verbatim>\<open>*\<close> (the specification's RepeatMatcher with minimum 0): one more
  round of the body and then the rest of the loop, before the exit without another round;
  a round that matches the empty string is refused. Every accepted round consumes a
  character, so there are at most as many rounds as characters left: that number is the
  bound \<open>rounds\<close> that \<open>matcher\<close> passes.
\<close>

primrec repeat :: "(mstate \<Rightarrow> mstate list) \<Rightarrow> nat \<Rightarrow> mstate \<Rightarrow> mstate list" where
  "repeat body 0 st = [st]"
| "repeat body (Suc rounds) st =
     concat (map (\<lambda>st'. if fst st' = fst st then [] else repeat body rounds st') (body st)) @ [st]"

text \<open>
  \<open>LineStart\<close> and \<open>LineEnd\<close> are \<^verbatim>\<open>^\<close> and \<^verbatim>\<open>$\<close> under the flag \<^verbatim>\<open>m\<close>. \<^verbatim>\<open>+\<close> is one
  round of the body followed by the loop of \<^verbatim>\<open>*\<close>; \<^verbatim>\<open>?\<close> is at most one round, refused
  when empty.
\<close>

primrec matcher :: "regex \<Rightarrow> string \<Rightarrow> mstate \<Rightarrow> mstate list" where
  "matcher (Chr c) s = (\<lambda>st. if fst st < length s \<and> s ! fst st = c then [(Suc (fst st), snd st)] else [])"
| "matcher Dot s =
     (\<lambda>st. if fst st < length s \<and> \<not> is_line_terminator (s ! fst st)
            then [(Suc (fst st), snd st)] else [])"
| "matcher Space s =
     (\<lambda>st. if fst st < length s \<and> is_white_space (s ! fst st)
            then [(Suc (fst st), snd st)] else [])"
| "matcher LineStart s =
     (\<lambda>st. if fst st = 0 \<or> is_line_terminator (s ! (fst st - 1)) then [st] else [])"
| "matcher LineEnd s =
     (\<lambda>st. if fst st = length s \<or> is_line_terminator (s ! fst st) then [st] else [])"
| "matcher (Then a b) s = (\<lambda>st. concat (map (matcher b s) (matcher a s st)))"
| "matcher (Star r) s = (\<lambda>st. repeat (matcher r s) (length s - fst st) st)"
| "matcher (Plus r) s =
     (\<lambda>st. concat (map (\<lambda>st'. repeat (matcher r s) (length s - fst st') st') (matcher r s st)))"
| "matcher (Opt r) s = (\<lambda>st. filter (\<lambda>st'. fst st' \<noteq> fst st) (matcher r s st) @ [st])"
| "matcher (Group k r) s =
     (\<lambda>st. map (\<lambda>st'. (fst st', (snd st')(k := Some (fst st, fst st')))) (matcher r s st))"

text \<open>A match: \<^verbatim>\<open>match.index\<close>, the index after the match, and the captures.\<close>

datatype RegExpMatch = RegExpMatch (index: nat) (endIndex: nat) (groups: captures)

text \<open>\<^verbatim>\<open>match[k].length\<close>, \<open>None\<close> when the group did not take part.\<close>

definition group_length :: "RegExpMatch \<Rightarrow> nat \<Rightarrow> nat option" where
  "group_length m k = (case groups m k of None \<Rightarrow> None | Some (a, b) \<Rightarrow> Some (b - a))"

definition match_at :: "regex \<Rightarrow> string \<Rightarrow> nat \<Rightarrow> mstate option" where
  "match_at r s i = (case matcher r s (i, \<lambda>k. None) of [] \<Rightarrow> None | st # _ \<Rightarrow> Some st)"

text \<open>
  \<^verbatim>\<open>exec\<close> from \<^verbatim>\<open>lastIndex\<close>: the first index from there, up to the length of the string,
  at which the expression matches, with the first state the matcher reaches there.
\<close>

definition exec :: "regex \<Rightarrow> string \<Rightarrow> nat \<Rightarrow> RegExpMatch option" where
  "exec r s lastIndex =
     (case List.find (\<lambda>i. match_at r s i \<noteq> None) [lastIndex ..< Suc (length s)] of
        None \<Rightarrow> None
      | Some i \<Rightarrow>
         (case match_at r s i of
            None \<Rightarrow> None
          | Some st \<Rightarrow> Some (RegExpMatch i (fst st) (snd st))))"

text \<open>\<^verbatim>\<open>str.match(pattern)\<close> read as a condition.\<close>

definition test :: "regex \<Rightarrow> string \<Rightarrow> bool" where
  "test r s = (exec r s 0 \<noteq> None)"

lemma repeat_bounds:
  assumes body: "\<And>st st'. st' \<in> set (body st) \<Longrightarrow> fst st \<le> fst st'"
  shows "st' \<in> set (repeat body rounds st) \<Longrightarrow> fst st \<le> fst st'"
proof (induction rounds arbitrary: st)
  case 0
  then show ?case by simp
next
  case (Suc rounds)
  then show ?case
    by (auto split: if_splits dest!: body) (meson Suc.IH le_trans)
qed

lemma matcher_bounds: "st' \<in> set (matcher r s st) \<Longrightarrow> fst st \<le> fst st'"
proof (induction r arbitrary: st st')
  case (Then a b)
  from Then.prems obtain st1 where "st1 \<in> set (matcher a s st)" "st' \<in> set (matcher b s st1)"
    by auto
  then have "fst st \<le> fst st1" "fst st1 \<le> fst st'" by (auto dest: Then.IH)
  then show ?case by simp
next
  case (Star r)
  from Star.prems have "st' \<in> set (repeat (matcher r s) (length s - fst st) st)" by simp
  then show ?case by (rule repeat_bounds [rotated]) (rule Star.IH)
next
  case (Plus r)
  from Plus.prems obtain st1 where "st1 \<in> set (matcher r s st)"
      "st' \<in> set (repeat (matcher r s) (length s - fst st1) st1)"
    by auto
  then have "fst st \<le> fst st1" "fst st1 \<le> fst st'"
    by (auto dest: Plus.IH repeat_bounds [rotated, of _ "matcher r s"])
  then show ?case by simp
next
  case (Opt r)
  then show ?case by (auto dest: Opt.IH)
next
  case (Group k r)
  then show ?case by (auto dest: Group.IH)
qed (auto split: if_splits)

lemma exec_bounds:
  assumes "exec r s lastIndex = Some m"
  shows "lastIndex \<le> index m \<and> index m \<le> length s \<and> index m \<le> endIndex m"
proof -
  from assms obtain i st where i: "List.find (\<lambda>i. match_at r s i \<noteq> None) [lastIndex ..< Suc (length s)] = Some i"
    and st: "match_at r s i = Some st" and m: "m = RegExpMatch i (fst st) (snd st)"
    by (auto simp: exec_def split: option.splits)
  from i have "i \<in> set [lastIndex ..< Suc (length s)]" by (auto dest: find_Some_mem)
  moreover from st have "st \<in> set (matcher r s (i, \<lambda>k. None))"
    by (auto simp: match_at_def split: list.splits)
  then have "i \<le> fst st" by (auto dest: matcher_bounds)
  ultimately show ?thesis using m by auto
qed

text \<open>
  \<^verbatim>\<open>matchAll\<close>: \<^verbatim>\<open>exec\<close> again and again, each time from the end of the match before (one
  further after an empty match), until there is no match.
\<close>

function matchAll_from :: "regex \<Rightarrow> string \<Rightarrow> nat \<Rightarrow> RegExpMatch list" where
  "matchAll_from r s lastIndex =
     (case exec r s lastIndex of
        None \<Rightarrow> []
      | Some m \<Rightarrow>
          m # matchAll_from r s (if endIndex m = index m then endIndex m + 1 else endIndex m))"
  by pat_completeness auto
termination
  by (relation "measure (\<lambda>(r, s, lastIndex). Suc (length s) - lastIndex)")
     (auto dest!: exec_bounds)

definition matchAll :: "regex \<Rightarrow> string \<Rightarrow> RegExpMatch list" where
  "matchAll r s = matchAll_from r s 0"

text \<open>A literal text followed by \<open>r\<close>.\<close>

definition lit :: "string \<Rightarrow> regex \<Rightarrow> regex" where
  "lit w r = foldr (\<lambda>c. Then (Chr c)) w r"

text \<open>\<^verbatim>\<open>/^(\s*)(.+)$/gm\<close>\<close>

definition line_regex :: regex where
  "line_regex = Then LineStart (Then (Group 1 (Star Space)) (Then (Group 2 (Plus Dot)) LineEnd))"

text \<open>\<^verbatim>\<open>"(.*)?.github/workflows/(.*).ya?ml"\<close>\<close>

definition workflow_regex :: regex where
  "workflow_regex =
     Then (Opt (Group 1 (Star Dot)))
       (Then Dot
         (lit ''github/workflows/''
           (Then (Group 2 (Star Dot))
             (Then Dot (Then (Chr CHR ''y'') (Then (Opt (Chr CHR ''a'')) (Then (Chr CHR ''m'') (Chr CHR ''l''))))))))"

section \<open>The editor's documents, positions and ranges\<close>

text \<open>
  \<^verbatim>\<open>vscode.Position\<close>, \<^verbatim>\<open>vscode.Range\<close> and \<^verbatim>\<open>vscode.TextDocument\<close> belong to the editor.
  A position is a line and a character; the constructor of a range orders its two ends;
  \<^verbatim>\<open>range.contains(position)\<close> includes both ends. Of a document the code reads
  \<^verbatim>\<open>fileName\<close> and \<^verbatim>\<open>getText()\<close> and calls \<^verbatim>\<open>offsetAt\<close> and \<^verbatim>\<open>positionAt\<close>; the two
  translations are fields of the document here, whatever functions the editor provides.
\<close>

datatype Position = Position (line: nat) (character: nat)

definition isBefore :: "Position \<Rightarrow> Position \<Rightarrow> bool" where
  "isBefore a b = (line a < line b \<or> (line a = line b \<and> character a < character b))"

datatype Range = Range (rangeStart: Position) (rangeEnd: Position)

definition newRange :: "Position \<Rightarrow> Position \<Rightarrow> Range" where
  "newRange a b = (if isBefore a b then Range a b else Range b a)"

definition contains :: "Range \<Rightarrow> Position \<Rightarrow> bool" where
  "contains r p = (\<not> isBefore p (rangeStart r) \<and> \<not> isBefore (rangeEnd r) p)"

record TextDocument =
  fileName :: string
  getText :: string
  offsetAt :: "Position \<Rightarrow> int"
  positionAt :: "int \<Rightarrow> Position"

section \<open>The decomposer: \<^verbatim>\<open>getNodeCommandRanges\<close>\<close>

text \<open>
  What the code can raise: the \<^verbatim>\<open>TypeError\<close> of a property read on \<^verbatim>\<open>undefined\<close>, and
  whatever the external \<^verbatim>\<open>safeLoad\<close> throws.
\<close>

datatype error = TypeError | LoaderError

definition startsWith :: "string \<Rightarrow> string \<Rightarrow> bool" where
  "startsWith s p = (take (length p) s = p)"

text \<open>
  The loop over \<^verbatim>\<open>lineMatches\<close>. \<^verbatim>\<open>match[1].length\<close> on a group that did not take part
  is a read on \<^verbatim>\<open>undefined\<close>.
\<close>

fun line_ranges :: "TextDocument \<Rightarrow> YAMLNode \<Rightarrow> RegExpMatch list \<Rightarrow> error + Range list" where
  "line_ranges document v [] = Inr []"
| "line_ranges document v (m # ms) =
     (case (group_length m 1, group_length m 2) of
        (Some l1, Some l2) \<Rightarrow>
          (let startOffset = startPosition v + int (index m) + int l1;
               endOffset = startOffset + int l2
           in case line_ranges document v ms of
                Inl e \<Rightarrow> Inl e
              | Inr ranges \<Rightarrow>
                  Inr (newRange (positionAt document startOffset) (positionAt document endOffset) # ranges))
      | _ \<Rightarrow> Inl TypeError)"

text \<open>
  The parameter \<^verbatim>\<open>value\<close> is whatever \<^verbatim>\<open>node.value\<close> held. A string has no
  \<^verbatim>\<open>rawValue\<close>, and neither has a node that is not a scalar: \<^verbatim>\<open>rawText\<close> is then
  \<^verbatim>\<open>undefined\<close> and \<^verbatim>\<open>rawText.startsWith\<close> raises. \<^verbatim>\<open>.slice(1)\<close> is \<open>tl\<close>.
\<close>

definition getNodeCommandRanges :: "TextDocument \<Rightarrow> YAMLValue \<Rightarrow> error + Range list" where
  "getNodeCommandRanges document val =
     (case val of
        Str s \<Rightarrow> Inl TypeError
      | Node v \<Rightarrow>
          (case rawValue v of
             None \<Rightarrow> Inl TypeError
           | Some rawText \<Rightarrow>
               if startsWith rawText ''|'' then line_ranges document v (tl (matchAll line_regex rawText))
               else Inr [newRange (positionAt document (startPosition v))
                                  (positionAt document (endPosition v))]))"

text \<open>
  The range the loop emits for a match, as the specification words it: it starts at
  \<^verbatim>\<open>valueNode.startPosition + matchIndex + leadingWhitespaceLength\<close> and ends
  \<^verbatim>\<open>contentLength\<close> further. \<open>content_nonempty\<close>: the content group of the match took
  part and is not empty.
\<close>

definition emitted_for :: "TextDocument \<Rightarrow> YAMLNode \<Rightarrow> RegExpMatch \<Rightarrow> Range \<Rightarrow> bool" where
  "emitted_for document v m r =
     (case (group_length m 1, group_length m 2) of
        (Some leading, Some content) \<Rightarrow>
           r = newRange (positionAt document (startPosition v + int (index m) + int leading))
                        (positionAt document (startPosition v + int (index m) + int leading + int content))
      | _ \<Rightarrow> False)"

definition content_nonempty :: "RegExpMatch \<Rightarrow> bool" where
  "content_nonempty m = (case group_length m 2 of Some content \<Rightarrow> 0 < content | None \<Rightarrow> False)"

section \<open>The loader and the two queries\<close>

text \<open>
  \<^verbatim>\<open>safeLoad\<close> of \<^verbatim>\<open>yaml-ast-parser\<close> is external: it is a parameter, a function from the
  text to what the call does: it returns a tree, returns \<^verbatim>\<open>undefined\<close> (\<open>Inr None\<close>), or
  throws (\<open>Inl\<close>). The code has no \<^verbatim>\<open>try\<close> around it.
\<close>

type_synonym loader = "string \<Rightarrow> error + YAMLNode option"

definition simpleYamlParse :: "loader \<Rightarrow> TextDocument \<Rightarrow> error + YAMLNode option" where
  "simpleYamlParse safeLoad document = safeLoad (getText document)"

definition getSupportedDocumentAst :: "loader \<Rightarrow> TextDocument \<Rightarrow> error + YAMLNode option" where
  "getSupportedDocumentAst safeLoad document =
     (if \<not> test workflow_regex (fileName document) then Inr None
      else simpleYamlParse safeLoad document)"

text \<open>\<^verbatim>\<open>const enablePath = ['jobs', '*', 'steps', 'run']\<close>\<close>

definition enablePath :: "string list" where
  "enablePath = [''jobs'', ''*'', ''steps'', ''run'']"

text \<open>
  \<^verbatim>\<open>enablePath.length === path.length && path.every(...)\<close>
\<close>

definition isInRun :: "string list \<Rightarrow> bool" where
  "isInRun path =
     (length enablePath = length path \<and>
      list_all (\<lambda>(val, expectedVal). expectedVal = ''*'' \<or> expectedVal = val) (zip path enablePath))"

text \<open>
  \<^verbatim>\<open>provideSingleLineRangeFromPosition\<close>. The result \<open>Inr None\<close> is \<^verbatim>\<open>undefined\<close>. When
  \<^verbatim>\<open>node.value\<close> is a string, \<^verbatim>\<open>value.startPosition\<close> is \<^verbatim>\<open>undefined\<close> and the comparison
  with it is false.
\<close>

definition provideSingleLineRangeFromPosition ::
  "loader \<Rightarrow> TextDocument \<Rightarrow> Position \<Rightarrow> error + Range option" where
  "provideSingleLineRangeFromPosition safeLoad document position =
     (case getSupportedDocumentAst safeLoad document of
        Inl e \<Rightarrow> Inl e
      | Inr None \<Rightarrow> Inr None
      | Inr (Some ast) \<Rightarrow>
          (let offset = offsetAt document position;
               (node, path) = findNode ast offset
           in case node of
                None \<Rightarrow> Inr None
              | Some n \<Rightarrow>
                  (case value' n of
                     None \<Rightarrow> Inr None
                   | Some (Str s) \<Rightarrow> Inr None
                   | Some (Node v) \<Rightarrow>
                       if offset \<ge> startPosition v \<and> offset \<le> endPosition v then
                         (if isInRun path then
                            (case getNodeCommandRanges document (Node v) of
                               Inl e \<Rightarrow> Inl e
                             | Inr ranges \<Rightarrow> Inr (List.find (\<lambda>range. contains range position) ranges))
                          else Inr None)
                       else Inr None)))"

text \<open>\<^verbatim>\<open>flatMap\<close> with a callback that can raise: the first exception ends the call.\<close>

fun flatMap :: "('a \<Rightarrow> error + 'b list) \<Rightarrow> 'a list \<Rightarrow> error + 'b list" where
  "flatMap f [] = Inr []"
| "flatMap f (x # xs) =
     (case f x of
        Inl e \<Rightarrow> Inl e
      | Inr ys \<Rightarrow> (case flatMap f xs of Inl e \<Rightarrow> Inl e | Inr zs \<Rightarrow> Inr (ys @ zs)))"

definition getAllSingleLineCommandLocations ::
  "loader \<Rightarrow> TextDocument \<Rightarrow> error + Range list option" where
  "getAllSingleLineCommandLocations safeLoad document =
     (case getSupportedDocumentAst safeLoad document of
        Inl e \<Rightarrow> Inl e
      | Inr None \<Rightarrow> Inr None
      | Inr (Some ast) \<Rightarrow>
          (let allMatchingNodes = getAllMatchingNodes ast enablePath
           in case flatMap (\<lambda>valueNode. getNodeCommandRanges document valueNode) allMatchingNodes of
                Inl e \<Rightarrow> Inl e
              | Inr ranges \<Rightarrow> Inr (Some ranges)))"

section \<open>Example documents\<close>

text \<open>
  For the examples, a document whose line breaks are LF, with the translations the editor
  makes for it: the position of an offset is the number of line breaks before it and the
  distance to the last of them; the offset of a position is the offset that has this
  position.
\<close>

definition lf_positionAt :: "string \<Rightarrow> int \<Rightarrow> Position" where
  "lf_positionAt text off =
     (let pre = take (nat (min (max off 0) (int (length text)))) text
      in Position (count_list pre CHR 0x0A)
                  (length (takeWhile (\<lambda>c. c \<noteq> CHR 0x0A) (rev pre))))"

definition lf_offsetAt :: "string \<Rightarrow> Position \<Rightarrow> int" where
  "lf_offsetAt text p =
     (case List.find (\<lambda>off. lf_positionAt text (int off) = p) [0 ..< Suc (length text)] of
        Some off \<Rightarrow> int off
      | None \<Rightarrow> int (length text))"

definition lf_document :: "string \<Rightarrow> string \<Rightarrow> TextDocument" where
  "lf_document name text =
     \<lparr>fileName = name, getText = text,
      offsetAt = lf_offsetAt text, positionAt = lf_positionAt text\<rparr>"

text \<open>A loader that returns the tree \<open>ast\<close> for the text \<open>text\<close> and \<^verbatim>\<open>undefined\<close> otherwise.\<close>

definition loads :: "string \<Rightarrow> YAMLNode \<Rightarrow> loader" where
  "loads text ast = (\<lambda>t. if t = text then Inr (Some ast) else Inr None)"

text \<open>The scenario of the specification as a workflow file; \<open>ex_root\<close> is its tree.\<close>

definition ex_text :: string where
  "ex_text = ''jobs:\<newline>  build:\<newline>    steps:\<newline>      - run: |\<newline>          echo hi\<newline>''"

definition ex_document :: TextDocument where
  "ex_document = lf_document ''/repo/.github/workflows/ci.yml'' ex_text"

text \<open>
  A step whose \<^verbatim>\<open>run\<close> holds a flow sequence, 50 characters:
  \<^verbatim>\<open>jobs:\n  build:\n    steps:\n      - run: [echo, hi]\n\<close>. \<^verbatim>\<open>run\<close> starts at offset
  34, the bracket at 39, \<^verbatim>\<open>echo\<close> at 40 and \<^verbatim>\<open>hi\<close> at 46; offset 45 is the blank after
  the comma, line 3, character 19.
\<close>

definition sq_text :: string where
  "sq_text = ''jobs:\<newline>  build:\<newline>    steps:\<newline>      - run: [echo, hi]\<newline>''"

definition sq_seq :: YAMLNode where
  "sq_seq = newItems 39 49 [newScalar 40 44 ''echo'' ''echo'', newScalar 46 48 ''hi'' ''hi'']"

definition sq_run :: YAMLNode where
  "sq_run = newMapping 34 49 ''run'' (Some sq_seq)"

definition sq_root :: YAMLNode where
  "sq_root =
     newMap 0 50
       [newMapping 0 50 ''jobs'' (Some (newMap 8 50
          [newMapping 8 50 ''build'' (Some (newMap 19 50
             [newMapping 19 50 ''steps'' (Some (newItems 32 50 [newMap 34 49 [sq_run]]))]))]))]"

definition sq_document :: TextDocument where
  "sq_document = lf_document ''/repo/.github/workflows/ci.yml'' sq_text"

text \<open>
  A block scalar with a line of blanks between two commands, at offset 0 of its own
  document: \<^verbatim>\<open>|\n  echo a\n   \n  echo b\n\<close>. \<^verbatim>\<open>echo a\<close> is on line 1, the blanks on
  line 2, \<^verbatim>\<open>echo b\<close> on line 3.
\<close>

definition bl_text :: string where
  "bl_text = ''|\<newline>  echo a\<newline>   \<newline>  echo b\<newline>''"

definition bl_scalar :: YAMLNode where
  "bl_scalar = newScalar 0 24 ''echo a\<newline>\<newline>echo b\<newline>'' bl_text"

definition bl_document :: TextDocument where
  "bl_document = lf_document ''/repo/.github/workflows/ci.yml'' bl_text"

text \<open>
  The block scalar of the specification's decomposition example, at offset 0 of its own
  document: \<^verbatim>\<open>|\n  echo a\n  echo b\n\<close>.
\<close>

definition ab_text :: string where
  "ab_text = ''|\<newline>  echo a\<newline>  echo b\<newline>''"

definition ab_scalar :: YAMLNode where
  "ab_scalar = newScalar 0 20 ''echo a\<newline>echo b\<newline>'' ab_text"

definition ab_document :: TextDocument where
  "ab_document = lf_document ''/repo/.github/workflows/ci.yml'' ab_text"

text \<open>
  A workflow of two steps, 91 characters:
  \<^verbatim>\<open>jobs:\n  b:\n    steps:\n      - run: |\n          echo a\n          echo b\n      - run: echo c\n\<close>.
  The first \<^verbatim>\<open>run\<close> starts at offset 30 and its block scalar at 35, with
  \<^verbatim>\<open>echo a\<close> on line 4 and \<^verbatim>\<open>echo b\<close> on line 5, both from character 10; the second
  \<^verbatim>\<open>run\<close> starts at 79 and its plain scalar \<^verbatim>\<open>echo c\<close> at 84, line 6, character 13.
\<close>

definition ts_text :: string where
  "ts_text = ''jobs:\<newline>  b:\<newline>    steps:\<newline>      - run: |\<newline>          echo a\<newline>          echo b\<newline>      - run: echo c\<newline>''"

definition ts_block :: YAMLNode where
  "ts_block = newScalar 35 71 ''echo a\<newline>echo b\<newline>''
                ''|\<newline>          echo a\<newline>          echo b\<newline>''"

definition ts_plain :: YAMLNode where
  "ts_plain = newScalar 84 90 ''echo c'' ''echo c''"

definition ts_run1 :: YAMLNode where
  "ts_run1 = newMapping 30 71 ''run'' (Some ts_block)"

definition ts_step1 :: YAMLNode where
  "ts_step1 = newMap 30 71 [ts_run1]"

definition ts_run2 :: YAMLNode where
  "ts_run2 = newMapping 79 90 ''run'' (Some ts_plain)"

definition ts_step2 :: YAMLNode where
  "ts_step2 = newMap 79 90 [ts_run2]"

definition ts_steps :: YAMLNode where
  "ts_steps = newMapping 15 91 ''steps'' (Some (newItems 28 91 [ts_step1, ts_step2]))"

definition ts_b :: YAMLNode where
  "ts_b = newMapping 8 91 ''b'' (Some (newMap 15 91 [ts_steps]))"

definition ts_jobs :: YAMLNode where
  "ts_jobs = newMapping 0 91 ''jobs'' (Some (newMap 8 91 [ts_b]))"

definition ts_root :: YAMLNode where
  "ts_root = newMap 0 91 [ts_jobs]"

definition ts_document :: TextDocument where
  "ts_document = lf_document ''/repo/.github/workflows/ci.yml'' ts_text"

section \<open>The file selector\<close>

text \<open>
  Modelled from the spec: the matcher of the glob \<^verbatim>\<open>WorkflowSelector\<close>
  (\<^verbatim>\<open>**/.github/workflows/*.{yaml,yml}\<close>) belongs to the editor and is not in the
  repository. The specification words it as "any file under a \<^verbatim>\<open>.github/workflows/\<close>
  directory with extension \<^verbatim>\<open>.yaml\<close> or \<^verbatim>\<open>.yml\<close>". The editor matches a glob against
  the file-system path of the document, which is also its \<^verbatim>\<open>fileName\<close>, and takes
  \<^verbatim>\<open>/\<close> and the backslash of a Windows path alike as the separator: \<open>toPosix\<close> writes
  every separator as \<^verbatim>\<open>/\<close>. On that path the last segment, the file, ends with one of
  the two extensions, and the directory before it is \<^verbatim>\<open>.github/workflows/\<close>, at the
  start of the path or after a separator.
\<close>

definition endsWith :: "string \<Rightarrow> string \<Rightarrow> bool" where
  "endsWith s suf = (length suf \<le> length s \<and> drop (length s - length suf) s = suf)"

definition toPosix :: "string \<Rightarrow> string" where
  "toPosix path = map (\<lambda>c. if c = CHR 0x5C then CHR ''/'' else c) path"

definition workflow_glob :: "string \<Rightarrow> bool" where
  "workflow_glob path =
     (let p = toPosix path;
          file = rev (takeWhile (\<lambda>c. c \<noteq> CHR ''/'') (rev p));
          dir = take (length p - length file) p
      in (endsWith file ''.yaml'' \<or> endsWith file ''.yml'') \<and>
         (dir = ''.github/workflows/'' \<or> endsWith dir ''/.github/workflows/''))"

text \<open>
  Three paths: a workflow file on Windows, \<^verbatim>\<open>c:\repo\.github\workflows\ci.yml\<close>; a YAML
  file in a directory \<^verbatim>\<open>github/workflows\<close> that is not \<^verbatim>\<open>.github/workflows\<close>; and a
  backup copy of a workflow file.
\<close>

definition win_path :: string where
  "win_path = ''c:'' @ CHR 0x5C # ''repo'' @ CHR 0x5C # ''.github'' @ CHR 0x5C # ''workflows''
                @ CHR 0x5C # ''ci.yml''"

definition plain_path :: string where
  "plain_path = ''/repo/github/workflows/ci.yml''"

definition backup_path :: string where
  "backup_path = ''/repo/.github/workflows/ci.yml.bak''"

section \<open>The capability bridge: \<^verbatim>\<open>registerFigSupport\<close>\<close>

text \<open>
  The module keeps one flag, \<^verbatim>\<open>figSupportRegistered\<close>. The model adds two counters to
  it, of the calls of \<^verbatim>\<open>figExtension.activate()\<close> and of
  \<^verbatim>\<open>api.registerLanguageSupport\<close>. An invocation reads from the editor whether there is
  an active text editor, the score of \<^verbatim>\<open>languages.match\<close> for its document (0 when the
  selector does not match), whether the extension is installed, and whether the promise
  of \<^verbatim>\<open>activate()\<close> resolves. The flag is set before the \<^verbatim>\<open>await\<close>, in the same
  synchronous run that tested it; the registration follows once the promise has resolved,
  and is counted with the invocation that started it.
\<close>

record Bridge =
  figSupportRegistered :: bool
  activations :: nat
  registrations :: nat

record FocusChange =
  activeTextEditor :: bool
  matchScore :: nat
  figExtension :: bool
  activated :: bool

definition registerFigSupport :: "FocusChange \<Rightarrow> Bridge \<Rightarrow> Bridge" where
  "registerFigSupport ev st =
     (if \<not> activeTextEditor ev \<or> matchScore ev = 0 then st
      else if \<not> figExtension ev then st
      else if figSupportRegistered st then st
      else
        (let st1 = st\<lparr>figSupportRegistered := True\<rparr>;
             st2 = st1\<lparr>activations := activations st1 + 1\<rparr>
         in if activated ev then st2\<lparr>registrations := registrations st2 + 1\<rparr> else st2))"

text \<open>\<^verbatim>\<open>let figSupportRegistered = false\<close>\<close>

definition initial :: Bridge where
  "initial = \<lparr>figSupportRegistered = False, activations = 0, registrations = 0\<rparr>"

text \<open>
  The invocations of a session, one after the other, and the number of times the flag
  goes from unset to set, and from set to unset, on the way.
\<close>

fun invocations :: "FocusChange list \<Rightarrow> Bridge \<Rightarrow> Bridge" where
  "invocations [] st = st"
| "invocations (ev # evs) st = invocations evs (registerFigSupport ev st)"

fun transitions :: "FocusChange list \<Rightarrow> Bridge \<Rightarrow> nat" where
  "transitions [] st = 0"
| "transitions (ev # evs) st =
     (if \<not> figSupportRegistered st \<and> figSupportRegistered (registerFigSupport ev st) then 1 else 0)
       + transitions evs (registerFigSupport ev st)"

fun reverts :: "FocusChange list \<Rightarrow> Bridge \<Rightarrow> nat" where
  "reverts [] st = 0"
| "reverts (ev # evs) st =
     (if figSupportRegistered st \<and> \<not> figSupportRegistered (registerFigSupport ev st) then 1 else 0)
       + reverts evs (registerFigSupport ev st)"

text \<open>A focus change to a workflow file with the extension installed and activating.\<close>

definition focus :: FocusChange where
  "focus = \<lparr>activeTextEditor = True, matchScore = 10, figExtension = True, activated = True\<rparr>"

section \<open>Lemmas about the traversals\<close>

declare chains.simps [simp del]
declare descent.simps [simp del]
declare find'.simps [simp del]
declare siblings_disjoint.simps [simp del]
declare spans_nested.simps [simp del]
declare ast_chains.simps [simp del]
declare item_shaped.simps [simp del]
declare entry_shaped.simps [simp del]

subsection \<open>The collector against the chains\<close>

lemma chains_nonempty: "c \<in> set (chains n) \<Longrightarrow> c \<noteq> []"
  by (subst (asm) chains.simps) auto

lemma keys_of_last: "c \<noteq> [] \<Longrightarrow> seg (last c) \<noteq> None \<Longrightarrow> keys_of seg c \<noteq> []"
proof (induction c)
  case Nil
  then show ?case by simp
next
  case (Cons a c)
  then show ?case by (cases "c = []") (auto split: option.splits)
qed

lemma concat_map_concat:
  "concat (map f (concat (map g xs))) = concat (map (\<lambda>x. concat (map f (g x))) xs)"
  by (induction xs) auto

lemma concat_map_nil: "(\<And>x. x \<in> set xs \<Longrightarrow> f x = []) \<Longrightarrow> concat (map f xs) = []"
  by (induction xs) auto

lemma matched_sub:
  assumes "\<And>c. c \<in> set cs \<Longrightarrow> c \<noteq> []"
  shows "concat (map (matched seg pattern pre) (map ((#) n) cs)) =
         concat (map (matched seg pattern (pre @ (case seg n of Some k \<Rightarrow> [k] | None \<Rightarrow> []))) cs)"
  using assms by (induction cs) (auto simp: matched_def split: option.splits)

lemma chains_split:
  "concat (map (matched seg pattern pre) (chains n)) =
     matched seg pattern pre [n] @
     concat (map (\<lambda>ch. concat (map (matched seg pattern (pre @ (case seg n of Some k \<Rightarrow> [k] | None \<Rightarrow> []))) (chains ch))) (children n))"
proof -
  have ne: "\<And>c. c \<in> set (concat (map chains (children n))) \<Longrightarrow> c \<noteq> []"
    by (auto dest: chains_nonempty)
  have "concat (map (matched seg pattern pre) (chains n)) =
        matched seg pattern pre [n] @ concat (map (matched seg pattern pre) (map ((#) n) (concat (map chains (children n)))))"
    by (subst chains.simps) simp
  also have "concat (map (matched seg pattern pre) (map ((#) n) (concat (map chains (children n))))) =
     concat (map (matched seg pattern (pre @ (case seg n of Some k \<Rightarrow> [k] | None \<Rightarrow> []))) (concat (map chains (children n))))"
    using ne by (rule matched_sub)
  also have "\<dots> = concat (map (\<lambda>ch. concat (map (matched seg pattern (pre @ (case seg n of Some k \<Rightarrow> [k] | None \<Rightarrow> []))) (chains ch))) (children n))"
    by (rule concat_map_concat)
  finally show ?thesis .
qed

lemma path_matches_snoc:
  assumes "length pre = depth" "list_all2 segment_matches (take depth pattern) pre"
  shows "path_matches pattern (pre @ s # rest) \<longleftrightarrow>
         depth < length pattern \<and> segment_matches (pattern ! depth) s \<and>
         length rest = length pattern - Suc depth \<and>
         list_all2 segment_matches (drop (Suc depth) pattern) rest"
proof (cases "depth < length pattern")
  case False
  then show ?thesis using assms by (auto simp: path_matches_def)
next
  case True
  then have pat: "pattern = take depth pattern @ (pattern ! depth) # drop (Suc depth) pattern"
    by (simp add: id_take_nth_drop [symmetric])
  have len: "length (take depth pattern) = length pre" using True assms by simp
  have "list_all2 segment_matches pattern (pre @ s # rest) \<longleftrightarrow>
        list_all2 segment_matches (take depth pattern) pre \<and>
        list_all2 segment_matches ((pattern ! depth) # drop (Suc depth) pattern) (s # rest)"
    by (subst pat) (simp only: list_all2_append [OF len])
  then show ?thesis using True assms
    by (auto simp: path_matches_def dest: list_all2_lengthD)
qed

lemma matched_pruned:
  assumes "length pre = depth" "list_all2 segment_matches (take depth pattern) pre"
    and "\<not> (depth < length pattern \<and> segment_matches (pattern ! depth) s)"
  shows "matched seg pattern (pre @ [s]) c = []"
  using path_matches_snoc [OF assms(1,2), of s "keys_of seg c"] assms(3)
  by (auto simp: matched_def)

lemma matched_below_final:
  assumes "length pre = depth" "list_all2 segment_matches (take depth pattern) pre"
    and "Suc depth = length pattern" "c \<noteq> []"
  shows "matched seg pattern (pre @ [s]) c = []"
proof (cases "seg (last c) \<noteq> None")
  case True
  with assms(4) have "keys_of seg c \<noteq> []" by (rule keys_of_last)
  then show ?thesis
    using path_matches_snoc [OF assms(1,2), of s "keys_of seg c"] assms(3)
    by (auto simp: matched_def)
next
  case False
  then show ?thesis by (simp add: matched_def)
qed

lemma matched_self:
  assumes "length pre = depth" "list_all2 segment_matches (take depth pattern) pre"
  shows "matched codeKey pattern pre [n] =
     (case codeKey n of None \<Rightarrow> []
      | Some s \<Rightarrow> if Suc depth = length pattern \<and> segment_matches (pattern ! depth) s
                  then value_nodes n else [])"
  using path_matches_snoc [OF assms, of _ "[]"]
  by (auto simp: matched_def split: option.splits)

lemma codeKey_Some: "codeKey n = Some s \<longleftrightarrow> keyOf n = Some s \<and> s \<noteq> []"
  by (auto simp: codeKey_def truthy_def split: option.splits)

lemma codeKey_None: "codeKey n = None \<longleftrightarrow> \<not> truthy (keyOf n)"
  by (auto simp: codeKey_def truthy_def split: option.splits)

lemma collect_chains:
  "length pre = depth \<Longrightarrow> list_all2 segment_matches (take depth pattern) pre \<Longrightarrow>
     collect pattern node depth acc = acc @ concat (map (matched codeKey pattern pre) (chains node))"
  "length pre = depth \<Longrightarrow> list_all2 segment_matches (take depth pattern) pre \<Longrightarrow>
     collect_children pattern cs depth acc =
       acc @ concat (map (\<lambda>ch. concat (map (matched codeKey pattern pre) (chains ch))) cs)"
proof (induction pattern node depth acc and pattern cs depth acc arbitrary: pre and pre
        rule: collect_collect_children.induct)
  case (1 path node depth nodes)
  note pre = "1.prems"
  have le: "depth \<le> length path"
    using pre by (auto dest!: list_all2_lengthD)
  show ?case
  proof (cases "codeKey node")
    case None
    then have nt: "\<not> truthy (keyOf node)" by (simp add: codeKey_None)
    have "collect path node depth nodes = collect_children path (children node) depth nodes"
      using nt by (simp add: Let_def)
    also have "\<dots> = nodes @ concat (map (\<lambda>ch. concat (map (matched codeKey path pre) (chains ch))) (children node))"
      using "1.IH" [of "keyOf node" _ pre] nt pre by (simp add: Let_def)
    also have "\<dots> = nodes @ concat (map (matched codeKey path pre) (chains node))"
      using None by (simp add: chains_split [of codeKey path pre node] matched_self [OF pre])
    finally show ?thesis .
  next
    case (Some s)
    then have ks: "keyOf node = Some s" "s \<noteq> []" "truthy (keyOf node)"
      by (auto simp: codeKey_Some truthy_def)
    show ?thesis
    proof (cases "depth < length path \<and> segment_matches (path ! depth) s")
      case False
      then have "collect path node depth nodes = nodes"
        using ks by (auto simp: Let_def segment_matches_def)
      moreover have "concat (map (matched codeKey path pre) (chains node)) = []"
        using False Some
        by (auto simp add: chains_split [of codeKey path pre node] matched_self [OF pre]
              matched_pruned [OF pre])
      ultimately show ?thesis by simp
    next
      case True
      then have notpruned: "\<not> (truthy (keyOf node) \<and>
          (if depth < length path then Some (path ! depth) else None) \<noteq> Some ''*'' \<and>
          (if depth < length path then Some (path ! depth) else None) \<noteq> keyOf node)"
        using ks by (auto simp: segment_matches_def)
      show ?thesis
      proof (cases "Suc depth = length path")
        case final: True
        then have "collect path node depth nodes = nodes @ value_nodes node"
          using ks notpruned by (auto simp: Let_def value_nodes_def split: option.splits)
        moreover have "concat (map (matched codeKey path pre) (chains node)) = value_nodes node"
        proof -
          have "\<And>ch. concat (map (matched codeKey path (pre @ [s])) (chains ch)) = []"
            by (rule concat_map_nil) (auto intro!: matched_below_final [OF pre final] dest: chains_nonempty)
          then show ?thesis
            using True Some final
            by (simp add: chains_split [of codeKey path pre node] matched_self [OF pre])
        qed
        ultimately show ?thesis by simp
      next
        case notfinal: False
        then have nf: "\<not> (truthy (keyOf node) \<and> int depth = int (length path) - 1)"
          by auto
        have pre': "length (pre @ [s]) = depth + 1"
          "list_all2 segment_matches (take (depth + 1) path) (pre @ [s])"
          using pre True by (auto simp: take_Suc_conv_app_nth intro!: list_all2_appendI)
        have "collect path node depth nodes = collect_children path (children node) (depth + 1) nodes"
          using ks True nf by (auto simp: Let_def segment_matches_def)
        also have "\<dots> = nodes @ concat (map (\<lambda>ch. concat (map (matched codeKey path (pre @ [s])) (chains ch))) (children node))"
          using "1.IH" [OF refl refl notpruned nf, of "pre @ [s]"] ks pre' by simp
        also have "\<dots> = nodes @ concat (map (matched codeKey path pre) (chains node))"
          using Some True notfinal
          by (simp add: chains_split [of codeKey path pre node] matched_self [OF pre])
        finally show ?thesis .
      qed
    qed
  qed
next
  case (2 path depth nodes)
  then show ?case by simp
next
  case (3 path child rest depth nodes)
  show ?case
    using "3.IH"(1) [OF "3.prems"] "3.IH"(2) [OF "3.prems"] by simp
qed

subsection \<open>The chains of the traversal against the nodes of the AST\<close>

lemma ast_chains_nonempty: "c \<in> set (ast_chains n) \<Longrightarrow> c \<noteq> []"
  by (subst (asm) ast_chains.simps) auto

lemma ast_chains_split:
  "concat (map (matched seg pattern pre) (ast_chains n)) =
     matched seg pattern pre [n] @
     concat (map (\<lambda>ch. concat (map (matched seg pattern
                    (pre @ (case seg n of Some k \<Rightarrow> [k] | None \<Rightarrow> []))) (ast_chains ch))) (subnodes n))"
proof -
  have ne: "\<And>c. c \<in> set (concat (map ast_chains (subnodes n))) \<Longrightarrow> c \<noteq> []"
    by (auto dest: ast_chains_nonempty)
  have "concat (map (matched seg pattern pre) (ast_chains n)) =
        matched seg pattern pre [n] @
        concat (map (matched seg pattern pre) (map ((#) n) (concat (map ast_chains (subnodes n)))))"
    by (subst ast_chains.simps) simp
  also have "concat (map (matched seg pattern pre) (map ((#) n) (concat (map ast_chains (subnodes n))))) =
     concat (map (matched seg pattern (pre @ (case seg n of Some k \<Rightarrow> [k] | None \<Rightarrow> [])))
       (concat (map ast_chains (subnodes n))))"
    using ne by (rule matched_sub)
  also have "\<dots> = concat (map (\<lambda>ch. concat (map (matched seg pattern
       (pre @ (case seg n of Some k \<Rightarrow> [k] | None \<Rightarrow> []))) (ast_chains ch))) (subnodes n))"
    by (rule concat_map_concat)
  finally show ?thesis .
qed

lemma codeKey_unkeyed: "key n = None \<Longrightarrow> codeKey n = None"
  by (simp add: codeKey_def keyOf_def truthy_def)

lemma concat_map_eq:
  "(\<And>x. x \<in> set xs \<Longrightarrow> f x = g x) \<Longrightarrow> concat (map f xs) = concat (map g xs)"
  by (induction xs) auto

lemma shaped_chains:
  "(item_shaped n \<longrightarrow>
      concat (map (matched codeKey pattern pre) (ast_chains n)) =
      concat (map (matched codeKey pattern pre) (chains n))) \<and>
   (entry_shaped n \<longrightarrow>
      concat (map (matched codeKey pattern pre) (ast_chains n)) =
      concat (map (matched codeKey pattern pre) (chains n)))"
proof (induction n arbitrary: pre rule: measure_induct_rule [where f = size])
  case (less n)
  let ?A = "\<lambda>pre n. concat (map (matched codeKey pattern pre) (ast_chains n))"
  let ?E = "\<lambda>pre n. concat (map (matched codeKey pattern pre) (chains n))"
  let ?k = "case codeKey n of Some k \<Rightarrow> [k] | None \<Rightarrow> []"
  have sub_eq: "subnodes n = children n \<Longrightarrow>
      (\<And>c. c \<in> set (children n) \<Longrightarrow> item_shaped c \<or> entry_shaped c) \<Longrightarrow> ?A pre n = ?E pre n"
  proof -
    assume eq: "subnodes n = children n"
      and sh: "\<And>c. c \<in> set (children n) \<Longrightarrow> item_shaped c \<or> entry_shaped c"
    have "\<And>c. c \<in> set (children n) \<Longrightarrow> ?A (pre @ ?k) c = ?E (pre @ ?k) c"
      using less.IH sh by (auto dest: children_size)
    then have "concat (map (?A (pre @ ?k)) (children n)) = concat (map (?E (pre @ ?k)) (children n))"
      by (rule concat_map_eq)
    then show "?A pre n = ?E pre n"
      by (simp add: ast_chains_split [of codeKey pattern pre n] chains_split [of codeKey pattern pre n] eq)
  qed
  show ?case
  proof (intro conjI impI)
    assume it: "item_shaped n"
    then have base: "key n = None" "items n = None"
      by (subst (asm) item_shaped.simps, simp)+
    show "?A pre n = ?E pre n"
    proof (cases "mappings n")
      case (Some ms)
      with it have v: "value' n = None" and es: "\<forall>e \<in> set ms. entry_shaped e"
        by (subst (asm) item_shaped.simps, simp)+
      have "subnodes n = children n" using Some v base by (simp add: subnodes_def children_def)
      moreover have "\<And>c. c \<in> set (children n) \<Longrightarrow> item_shaped c \<or> entry_shaped c"
        using Some es by (simp add: children_def)
      ultimately show ?thesis by (rule sub_eq)
    next
      case None
      with it obtain s where v: "value' n = Some (Str s)"
        by (subst (asm) item_shaped.simps) (auto split: option.splits YAMLValue.splits)
      have "subnodes n = children n" "children n = []"
        using None v base by (simp_all add: subnodes_def children_def)
      then show ?thesis by (intro sub_eq) simp_all
    qed
  next
    assume en: "entry_shaped n"
    then have base: "mappings n = None" "items n = None"
      by (subst (asm) entry_shaped.simps, simp)+
    show "?A pre n = ?E pre n"
    proof (cases "value' n")
      case None
      have "subnodes n = children n" "children n = []"
        using None base by (simp_all add: subnodes_def children_def)
      then show ?thesis by (intro sub_eq) simp_all
    next
      case (Some val)
      with en obtain v where val: "val = Node v"
        by (subst (asm) entry_shaped.simps) (auto split: YAMLValue.splits)
      have vn: "value' n = Some (Node v)" using Some val by simp
      have sv: "size v < size n" using vn by (rule size_value)
      have subn: "subnodes n = [v]" using vn base by (simp add: subnodes_def)
      have A: "?A pre n = matched codeKey pattern pre [n] @ ?A (pre @ ?k) v"
        by (simp add: ast_chains_split [of codeKey pattern pre n] subn)
      have E: "?E pre n = matched codeKey pattern pre [n] @ concat (map (?E (pre @ ?k)) (children n))"
        by (simp add: chains_split [of codeKey pattern pre n])
      show ?thesis
      proof (cases "items v")
        case None
        with en vn have iv: "item_shaped v"
          by (subst (asm) entry_shaped.simps) simp
        then have kv: "key v = None" by (subst (asm) item_shaped.simps) simp
        have ch: "children n = children v"
        proof (cases "mappings v")
          case (Some ms)
          then show ?thesis using vn base by (simp add: children_def)
        next
          case mv: None
          with iv obtain s where "value' v = Some (Str s)"
            by (subst (asm) item_shaped.simps) (auto split: option.splits YAMLValue.splits)
          then show ?thesis using vn base mv None by (simp add: children_def)
        qed
        have "?A (pre @ ?k) v = ?E (pre @ ?k) v" using less.IH [OF sv] iv by simp
        also have "\<dots> = concat (map (?E (pre @ ?k)) (children v))"
          using codeKey_unkeyed [OF kv]
          by (simp add: chains_split [of codeKey pattern "pre @ ?k" v] matched_def)
        finally show ?thesis using A E ch by simp
      next
        case (Some its)
        with en vn have sq: "key v = None" "mappings v = None" "value' v = None"
            "\<forall>i \<in> set its. item_shaped i"
          by (subst (asm) entry_shaped.simps, simp)+
        have ch: "children n = its" using vn base sq Some by (simp add: children_def)
        have sb: "subnodes v = its" using sq Some by (simp add: subnodes_def)
        have "\<And>i. i \<in> set its \<Longrightarrow> ?A (pre @ ?k) i = ?E (pre @ ?k) i"
        proof -
          fix i assume i: "i \<in> set its"
          then have "size i < size v" using sb subnodes_size [of i v] by simp
          then have "size i < size n" using sv by simp
          from less.IH [OF this] i sq(4) show "?A (pre @ ?k) i = ?E (pre @ ?k) i" by simp
        qed
        then have "concat (map (?A (pre @ ?k)) its) = concat (map (?E (pre @ ?k)) its)"
          by (rule concat_map_eq)
        moreover have "?A (pre @ ?k) v = concat (map (?A (pre @ ?k)) its)"
          using codeKey_unkeyed [OF sq(1)]
          by (simp add: ast_chains_split [of codeKey pattern "pre @ ?k" v] sb matched_def)
        ultimately show ?thesis using A E ch by simp
      qed
    qed
  qed
qed

subsection \<open>The locator against the descent\<close>

lemma descent_nonempty: "descent position n \<noteq> []"
  by (subst descent.simps) (simp split: option.splits)

lemma find_descent:
  "find' position node path =
     (if in_span position node
      then (Some (last (descent position node)), path @ keys_of codeKey (descent position node))
      else (None, path))"
  "find_children position cs path =
     (case List.find (in_span position) cs of
        None \<Rightarrow> (None, path)
      | Some m \<Rightarrow> (Some (last (descent position m)), path @ keys_of codeKey (descent position m)))"
proof (induction position node path and position cs path rule: find'_find_children.induct)
  case (1 position node path)
  show ?case
  proof (cases "in_span position node")
    case False
    then have "\<not> (startPosition node \<le> position \<and> position \<le> endPosition node)"
      by (simp add: in_span_def)
    then have "find' position node path = (None, path)"
      by (subst find'.simps) (simp only: if_False)
    then show ?thesis using False by simp
  next
    case True
    then have span: "startPosition node \<le> position \<and> position \<le> endPosition node"
      by (simp add: in_span_def)
    define path1 where "path1 = (case keyOf node of Some s \<Rightarrow> if truthy (keyOf node) then path @ [s] else path | None \<Rightarrow> path)"
    have p1: "path1 = path @ keys_of codeKey [node]"
      by (auto simp: path1_def codeKey_def split: option.splits)
    have ih: "find_children position (children node) path1 =
       (case List.find (in_span position) (children node) of
          None \<Rightarrow> (None, path1)
        | Some m \<Rightarrow> (Some (last (descent position m)), path1 @ keys_of codeKey (descent position m)))"
      unfolding path1_def by (rule "1.IH" [OF span refl refl])
    show ?thesis
    proof (cases "List.find (in_span position) (children node)")
      case None
      then have "descent position node = [node]" by (subst descent.simps) simp
      moreover have "find' position node path = (Some node, path1)"
        using span ih None by (subst find'.simps) (simp add: Let_def path1_def [symmetric])
      ultimately show ?thesis using True p1 by simp
    next
      case (Some m)
      then have d: "descent position node = node # descent position m" by (subst descent.simps) simp
      have k: "path1 @ keys_of codeKey (descent position m) = path @ keys_of codeKey (descent position node)"
        by (simp add: d p1 split: option.splits)
      have "find' position node path =
          (Some (last (descent position m)), path1 @ keys_of codeKey (descent position m))"
        using span ih Some by (subst find'.simps) (simp add: Let_def path1_def [symmetric])
      then show ?thesis using True k d descent_nonempty [of position m] by simp
    qed
  qed
next
  case (2 position path)
  then show ?case by simp
next
  case (3 position child rest path)
  show ?case
  proof (cases "in_span position child")
    case True
    then show ?thesis using "3.IH"(1) by simp
  next
    case False
    then have f: "find' position child path = (None, path)" using "3.IH"(1) by simp
    show ?thesis using "3.IH"(2) [OF f [symmetric] refl] f False by simp
  qed
qed

lemma chains_cases:
  "c \<in> set (chains n) \<longleftrightarrow>
     c = [n] \<or> (\<exists>ch \<in> set (children n). \<exists>c' \<in> set (chains ch). c = n # c')"
  by (subst chains.simps) auto

lemma chains_hd: "c \<in> set (chains n) \<Longrightarrow> hd c = n"
  by (auto simp: chains_cases [of c n])

lemma descent_chain: "descent position n \<in> set (chains n)"
proof (induction position n rule: descent.induct)
  case (1 position n)
  show ?case
  proof (cases "List.find (in_span position) (children n)")
    case None
    then have "descent position n = [n]" by (subst descent.simps) simp
    then show ?thesis by (simp add: chains_cases [of _ n])
  next
    case (Some m)
    then have "descent position n = n # descent position m" by (subst descent.simps) simp
    moreover have "m \<in> set (children n)" using Some by (auto dest: find_Some_mem)
    ultimately show ?thesis using "1.IH" [OF Some] by (auto simp: chains_cases [of _ n])
  qed
qed

lemma descent_in_span:
  "in_span position n \<Longrightarrow> m \<in> set (descent position n) \<Longrightarrow> in_span position m"
proof (induction position n rule: descent.induct)
  case (1 position n)
  show ?case
  proof (cases "List.find (in_span position) (children n)")
    case None
    then have "descent position n = [n]" by (subst descent.simps) simp
    then show ?thesis using "1.prems" by simp
  next
    case (Some k)
    then have "descent position n = n # descent position k" by (subst descent.simps) simp
    moreover have "in_span position k" using Some by (auto dest: find_Some_mem)
    ultimately show ?thesis using "1.IH" [OF Some] "1.prems" by auto
  qed
qed

lemma descent_deepest:
  "ch \<in> set (children (last (descent position n))) \<Longrightarrow> \<not> in_span position ch"
proof (induction position n rule: descent.induct)
  case (1 position n)
  show ?case
  proof (cases "List.find (in_span position) (children n)")
    case None
    then have "descent position n = [n]" by (subst descent.simps) simp
    then show ?thesis using "1.prems" None by (auto simp: find_None_iff)
  next
    case (Some k)
    then have "descent position n = n # descent position k" by (subst descent.simps) simp
    then show ?thesis using "1.IH" [OF Some] "1.prems" descent_nonempty [of position k] by auto
  qed
qed

lemma pairwise_disjoint_same:
  "pairwise_disjoint cs \<Longrightarrow> a \<in> set cs \<Longrightarrow> b \<in> set cs \<Longrightarrow>
     in_span position a \<Longrightarrow> in_span position b \<Longrightarrow> a = b"
  by (induction cs) (auto simp: spans_disjoint_def in_span_def)

lemma disjoint_chain_is_descent:
  "siblings_disjoint n \<Longrightarrow> c \<in> set (chains n) \<Longrightarrow> (\<forall>m \<in> set c. in_span position m) \<Longrightarrow>
     (\<forall>ch \<in> set (children (last c)). \<not> in_span position ch) \<Longrightarrow> c = descent position n"
proof (induction n arbitrary: c rule: chains.induct)
  case (1 n)
  from "1.prems"(2) consider "c = [n]"
    | ch c' where "ch \<in> set (children n)" "c' \<in> set (chains ch)" "c = n # c'"
    by (auto simp: chains_cases [of c n])
  then show ?case
  proof cases
    case 1
    then have "List.find (in_span position) (children n) = None"
      using "1.prems"(4) by (auto simp: find_None_iff)
    then show ?thesis using 1 by (subst descent.simps) simp
  next
    case 2
    have ne: "c' \<noteq> []" using 2 by (auto dest: chains_nonempty)
    have hd: "hd c' = ch" using 2 by (auto dest: chains_hd)
    then have chin: "in_span position ch" using "1.prems"(3) 2 ne by (cases c') auto
    obtain k where k: "List.find (in_span position) (children n) = Some k"
      using chin 2(1) by (cases "List.find (in_span position) (children n)") (auto simp: find_None_iff)
    then have "k \<in> set (children n)" "in_span position k" by (auto dest: find_Some_mem)
    moreover have "pairwise_disjoint (children n)"
      using "1.prems"(1) by (subst (asm) siblings_disjoint.simps) simp
    ultimately have "k = ch" using 2(1) chin by (auto dest: pairwise_disjoint_same)
    have sd: "siblings_disjoint ch"
      using "1.prems"(1) 2(1) by (subst (asm) siblings_disjoint.simps) simp
    have "c' = descent position ch"
      using "1.IH" [OF 2(1) sd 2(2)] "1.prems"(3,4) 2(3) ne by simp
    then show ?thesis using k \<open>k = ch\<close> 2(3) by (subst descent.simps) simp
  qed
qed

lemma nested_chain_in_span:
  "spans_nested n \<Longrightarrow> c \<in> set (chains n) \<Longrightarrow> in_span position (last c) \<Longrightarrow>
     (\<forall>m \<in> set c. in_span position m)"
proof (induction n arbitrary: c rule: chains.induct)
  case (1 n)
  from "1.prems"(2) consider "c = [n]"
    | ch c' where "ch \<in> set (children n)" "c' \<in> set (chains ch)" "c = n # c'"
    by (auto simp: chains_cases [of c n])
  then show ?case
  proof cases
    case 1
    then show ?thesis using "1.prems" by simp
  next
    case 2
    have ne: "c' \<noteq> []" using 2 by (auto dest: chains_nonempty)
    have nest: "startPosition n \<le> startPosition ch" "endPosition ch \<le> endPosition n" "spans_nested ch"
      using "1.prems"(1) 2(1) by (subst (asm) spans_nested.simps, simp)+
    have last: "in_span position (last c')" using "1.prems"(3) 2(3) ne by simp
    have sub: "\<And>k. k \<in> set c' \<Longrightarrow> in_span position k"
      using "1.IH" [OF 2(1) nest(3) 2(2) last] by simp
    have "ch \<in> set c'" using chains_hd [OF 2(2)] ne by (cases c') auto
    then have "in_span position ch" by (rule sub)
    then have "in_span position n" using nest by (simp add: in_span_def)
    then show ?thesis using 2(3) sub by auto
  qed
qed

section \<open>Lemmas about the matcher and the decomposer\<close>

declare matchAll_from.simps [simp del]

lemma mem_Then:
  "st' \<in> set (matcher (Then a b) s st) \<longleftrightarrow> (\<exists>st1 \<in> set (matcher a s st). st' \<in> set (matcher b s st1))"
  by auto

lemma mem_Group:
  "st' \<in> set (matcher (Group k r) s st) \<longleftrightarrow>
     (\<exists>st1 \<in> set (matcher r s st). st' = (fst st1, (snd st1)(k := Some (fst st, fst st1))))"
  by auto

lemma repeat_captures:
  assumes body: "\<And>st st'. st' \<in> set (body st) \<Longrightarrow> snd st' = snd st"
  shows "st' \<in> set (repeat body rounds st) \<Longrightarrow> snd st' = snd st"
proof (induction rounds arbitrary: st)
  case 0
  then show ?case by simp
next
  case (Suc rounds)
  from Suc.prems consider "st' = st"
    | st1 where "st1 \<in> set (body st)" "st' \<in> set (repeat body rounds st1)"
    by (auto split: if_splits)
  then show ?case
  proof cases
    case 1
    then show ?thesis by simp
  next
    case 2
    then show ?thesis using Suc.IH [of st1] body [of st1 st] by simp
  qed
qed

lemma mem_Star_Space:
  "st' \<in> set (matcher (Star Space) s st) \<Longrightarrow> snd st' = snd st \<and> fst st \<le> fst st'"
proof
  assume a: "st' \<in> set (matcher (Star Space) s st)"
  then show "fst st \<le> fst st'" by (rule matcher_bounds)
  from a have "st' \<in> set (repeat (matcher Space s) (length s - fst st) st)" by simp
  then show "snd st' = snd st"
    by (rule repeat_captures [rotated]) (auto split: if_splits)
qed

lemma mem_Plus_Dot:
  "st' \<in> set (matcher (Plus Dot) s st) \<Longrightarrow> snd st' = snd st \<and> fst st < fst st'"
proof -
  assume "st' \<in> set (matcher (Plus Dot) s st)"
  then obtain st1 where 1: "st1 \<in> set (matcher Dot s st)"
    and 2: "st' \<in> set (repeat (matcher Dot s) (length s - fst st1) st1)"
    by auto
  from 1 have s1: "st1 = (Suc (fst st), snd st)" by (auto split: if_splits)
  from 2 have "snd st' = snd st1"
    by (rule repeat_captures [rotated]) (auto split: if_splits)
  moreover from 2 have "fst st1 \<le> fst st'"
    by (rule repeat_bounds [rotated]) (auto split: if_splits)
  ultimately show ?thesis using s1 by simp
qed

lemma mem_line_regex:
  assumes "st' \<in> set (matcher line_regex s (i, c0))"
  shows "\<exists>a. i \<le> a \<and> a < fst st' \<and> snd st' = c0(1 := Some (i, a), 2 := Some (a, fst st'))"
proof -
  from assms obtain st1 st2 where
      1: "st1 \<in> set (matcher LineStart s (i, c0))"
    and 2: "st2 \<in> set (matcher (Group 1 (Star Space)) s st1)"
    and 3: "st' \<in> set (matcher (Then (Group 2 (Plus Dot)) LineEnd) s st2)"
    unfolding line_regex_def mem_Then by blast
  from 3 obtain st3 where
      4: "st3 \<in> set (matcher (Group 2 (Plus Dot)) s st2)"
    and 5: "st' \<in> set (matcher LineEnd s st3)"
    unfolding mem_Then by blast
  from 1 have s1: "st1 = (i, c0)" by (auto split: if_splits)
  from 2 obtain t2 where t2: "t2 \<in> set (matcher (Star Space) s st1)"
    and s2: "st2 = (fst t2, (snd t2)(1 := Some (fst st1, fst t2)))"
    unfolding mem_Group by blast
  from 4 obtain t3 where t3: "t3 \<in> set (matcher (Plus Dot) s st2)"
    and s3: "st3 = (fst t3, (snd t3)(2 := Some (fst st2, fst t3)))"
    unfolding mem_Group by blast
  from 5 have s5: "st' = st3" by (auto split: if_splits)
  from mem_Star_Space [OF t2] s1 have a: "snd t2 = c0" "i \<le> fst t2" by simp_all
  from a s1 s2 have st2: "st2 = (fst t2, c0(1 := Some (i, fst t2)))" by simp
  from mem_Plus_Dot [OF t3] st2 have b: "snd t3 = c0(1 := Some (i, fst t2))" "fst t2 < fst t3"
    by simp_all
  from b s3 s5 st2 have "st' = (fst t3, c0(1 := Some (i, fst t2), 2 := Some (fst t2, fst t3)))"
    by simp
  with a b show ?thesis by (intro exI [of _ "fst t2"]) simp
qed

lemma exec_matcher:
  assumes "exec r s lastIndex = Some m"
  shows "(endIndex m, groups m) \<in> set (matcher r s (index m, \<lambda>k. None))"
  using assms by (auto simp: exec_def match_at_def split: option.splits list.splits)

lemma matchAll_from_matcher:
  "m \<in> set (matchAll_from r s lastIndex) \<Longrightarrow>
     (endIndex m, groups m) \<in> set (matcher r s (index m, \<lambda>k. None))"
proof (induction r s lastIndex rule: matchAll_from.induct)
  case (1 r s lastIndex)
  show ?case
  proof (cases "exec r s lastIndex")
    case None
    then show ?thesis using "1.prems" by (subst (asm) matchAll_from.simps) simp
  next
    case (Some m0)
    then consider "m = m0"
      | "m \<in> set (matchAll_from r s (if endIndex m0 = index m0 then endIndex m0 + 1 else endIndex m0))"
      using "1.prems" by (subst (asm) matchAll_from.simps) auto
    then show ?thesis
    proof cases
      case 1
      then show ?thesis using Some by (simp add: exec_matcher)
    next
      case 2
      then show ?thesis using "1.IH" [OF Some] by simp
    qed
  qed
qed

lemma line_match_groups:
  assumes "m \<in> set (matchAll line_regex s)"
  shows "\<exists>l1 l2. group_length m 1 = Some l1 \<and> group_length m 2 = Some l2 \<and> 0 < l2 \<and>
           index m + l1 + l2 = endIndex m"
proof -
  from assms have "(endIndex m, groups m) \<in> set (matcher line_regex s (index m, \<lambda>k. None))"
    unfolding matchAll_def by (rule matchAll_from_matcher)
  from mem_line_regex [OF this] obtain a where "index m \<le> a" "a < endIndex m"
    "groups m = (\<lambda>k. None)(1 := Some (index m, a), 2 := Some (a, endIndex m))"
    by auto
  then show ?thesis by (auto simp: group_length_def)
qed

lemma mem_tl: "x \<in> set (tl xs) \<Longrightarrow> x \<in> set xs"
  by (cases xs) auto

lemma line_ranges_emitted:
  assumes "\<And>m. m \<in> set ms \<Longrightarrow>
      \<exists>l1 l2. group_length m 1 = Some l1 \<and> group_length m 2 = Some l2 \<and> 0 < l2"
  shows "\<exists>ranges. line_ranges document v ms = Inr ranges \<and>
           list_all2 (\<lambda>m r. emitted_for document v m r \<and> content_nonempty m) ms ranges"
  using assms
proof (induction ms)
  case Nil
  then show ?case by simp
next
  case (Cons m ms)
  then obtain ranges where r: "line_ranges document v ms = Inr ranges"
      "list_all2 (\<lambda>m r. emitted_for document v m r \<and> content_nonempty m) ms ranges"
    by auto
  from Cons.prems [of m] obtain l1 l2 where
      g: "group_length m 1 = Some l1" "group_length m 2 = Some l2" "0 < l2"
    by auto
  show ?case using r g
    by (simp add: Let_def emitted_for_def content_nonempty_def)
qed

lemma block_ranges:
  assumes "rawValue v = Some raw" and "startsWith raw ''|''"
  shows "\<exists>ranges. getNodeCommandRanges document (Node v) = Inr ranges \<and>
           list_all2 (\<lambda>m r. emitted_for document v m r \<and> content_nonempty m)
             (tl (matchAll line_regex raw)) ranges"
proof -
  have "\<And>m. m \<in> set (tl (matchAll line_regex raw)) \<Longrightarrow>
      \<exists>l1 l2. group_length m 1 = Some l1 \<and> group_length m 2 = Some l2 \<and> 0 < l2"
    using line_match_groups [of _ raw] by (blast dest: mem_tl)
  from line_ranges_emitted [OF this, of "tl (matchAll line_regex raw)" document v]
  show ?thesis using assms by (simp add: getNodeCommandRanges_def)
qed

lemma line_ranges_two:
  assumes "map (\<lambda>m. (index m, group_length m 1, group_length m 2)) ms =
             [(i1, Some a1, Some b1), (i2, Some a2, Some b2)]"
  shows "line_ranges document v ms =
     Inr [newRange (positionAt document (startPosition v + int i1 + int a1))
                   (positionAt document (startPosition v + int i1 + int a1 + int b1)),
          newRange (positionAt document (startPosition v + int i2 + int a2))
                   (positionAt document (startPosition v + int i2 + int a2 + int b2))]"
proof -
  from assms obtain m1 m2 where "ms = [m1, m2]"
    by (cases ms; cases "tl ms") auto
  with assms show ?thesis by (simp add: Let_def)
qed


text \<open>
  The point query where the located node has a node as its value and the decomposer
  returns: the first decomposed range that contains the position, when the path matches
  the enable path and the offset lies in the value's span; \<^verbatim>\<open>undefined\<close> otherwise.
\<close>

lemma isInRun_path_matches: "isInRun path \<longleftrightarrow> path_matches enablePath path"
proof -
  have "list_all (\<lambda>(val, expectedVal). expectedVal = ''*'' \<or> expectedVal = val) (zip path enablePath) \<longleftrightarrow>
        (\<forall>(expectedVal, val) \<in> set (zip enablePath path). segment_matches expectedVal val)"
    by (subst zip_commute) (auto simp: list_all_iff segment_matches_def)
  then show ?thesis
    by (auto simp: isInRun_def path_matches_def list_all2_iff)
qed

lemma provideSingleLineRangeFromPosition_scalar_value:
  assumes "getSupportedDocumentAst safeLoad document = Inr (Some ast)"
    and "findNode ast (offsetAt document position) = (Some n, path)"
    and "value' n = Some (Node v)"
    and "getNodeCommandRanges document (Node v) = Inr ranges"
  shows "provideSingleLineRangeFromPosition safeLoad document position =
     Inr (if path_matches enablePath path \<and> in_span (offsetAt document position) v
          then List.find (\<lambda>range. contains range position) ranges else None)"
  using assms
  by (simp add: provideSingleLineRangeFromPosition_def Let_def isInRun_path_matches in_span_def)

section \<open>Lemmas about the bridge and the recognition test\<close>

lemma registered_fixed: "figSupportRegistered st \<Longrightarrow> registerFigSupport ev st = st"
  by (simp add: registerFigSupport_def)

lemma registered_invocations: "figSupportRegistered st \<Longrightarrow> invocations evs st = st"
  by (induction evs) (simp_all add: registered_fixed)

lemma registered_no_transition:
  "figSupportRegistered st \<Longrightarrow> transitions evs st = 0 \<and> reverts evs st = 0"
  by (induction evs) (simp_all add: registered_fixed)

lemma step_registered:
  "figSupportRegistered (registerFigSupport ev st) \<or> registerFigSupport ev st = st"
  by (simp add: registerFigSupport_def Let_def)

lemma transitions_le: "transitions evs st \<le> 1 \<and> reverts evs st = 0"
proof (induction evs arbitrary: st)
  case Nil
  then show ?case by simp
next
  case (Cons ev evs)
  show ?case
  proof (cases "figSupportRegistered (registerFigSupport ev st)")
    case True
    then show ?thesis using registered_no_transition [OF True, of evs] by simp
  next
    case False
    then have "registerFigSupport ev st = st" using step_registered [of ev st] by simp
    then show ?thesis using False Cons.IH [of st] by simp
  qed
qed

lemma calls_invariant:
  "activations st = (if figSupportRegistered st then 1 else 0) \<Longrightarrow> registrations st \<le> activations st \<Longrightarrow>
   activations (invocations evs st) = (if figSupportRegistered (invocations evs st) then 1 else 0) \<and>
   registrations (invocations evs st) \<le> activations (invocations evs st)"
proof (induction evs arbitrary: st)
  case Nil
  then show ?case by simp
next
  case (Cons ev evs)
  have "activations (registerFigSupport ev st) = (if figSupportRegistered (registerFigSupport ev st) then 1 else 0)"
    "registrations (registerFigSupport ev st) \<le> activations (registerFigSupport ev st)"
    using Cons.prems by (auto simp: registerFigSupport_def Let_def split: if_splits)
  then show ?case using Cons.IH [of "registerFigSupport ev st"] by simp
qed

lemma chr_step:
  "s = u @ c # v \<Longrightarrow> (length (u @ [c]), caps) \<in> set (matcher (Chr c) s (length u, caps))"
  by (simp add: nth_append)

lemma dot_step:
  "s = u @ x # v \<Longrightarrow> \<not> is_line_terminator x \<Longrightarrow>
     (length (u @ [x]), caps) \<in> set (matcher Dot s (length u, caps))"
  by (simp add: nth_append)

lemma then_step:
  "st1 \<in> set (matcher a s st) \<Longrightarrow> st' \<in> set (matcher b s st1) \<Longrightarrow>
     st' \<in> set (matcher (Then a b) s st)"
  by auto

lemma opt_skip: "st \<in> set (matcher (Opt r) s st)"
  by simp

lemma opt_take:
  "st' \<in> set (matcher r s st) \<Longrightarrow> fst st' \<noteq> fst st \<Longrightarrow> st' \<in> set (matcher (Opt r) s st)"
  by simp

lemma group_step:
  "st' \<in> set (matcher r s st) \<Longrightarrow>
     (fst st', (snd st')(k := Some (fst st, fst st'))) \<in> set (matcher (Group k r) s st)"
  by (simp add: image_iff) blast

lemma repeat_exit: "st \<in> set (repeat body rounds st)"
  by (cases rounds) simp_all

lemma repeat_round:
  "st1 \<in> set (body st) \<Longrightarrow> fst st1 \<noteq> fst st \<Longrightarrow> st' \<in> set (repeat body rounds st1) \<Longrightarrow>
     st' \<in> set (repeat body (Suc rounds) st)"
  by auto

lemma mem_nonempty: "x \<in> set xs \<Longrightarrow> xs \<noteq> []"
  by auto

declare matcher.simps [simp del]
declare repeat.simps [simp del]

lemma lit_step:
  "s = u @ w @ v \<Longrightarrow> st' \<in> set (matcher r s (length (u @ w), caps)) \<Longrightarrow>
     st' \<in> set (matcher (lit w r) s (length u, caps))"
proof (induction w arbitrary: u)
  case Nil
  then show ?case by (simp add: lit_def)
next
  case (Cons c w)
  have 1: "(length (u @ [c]), caps) \<in> set (matcher (Chr c) s (length u, caps))"
    by (rule chr_step [where v = "w @ v"]) (simp add: Cons.prems(1))
  have 2: "st' \<in> set (matcher (lit w r) s (length (u @ [c]), caps))"
    using Cons.prems by (intro Cons.IH) simp_all
  have "lit (c # w) r = Then (Chr c) (lit w r)" by (simp add: lit_def)
  then show ?case using then_step [OF 1 2] by simp
qed

lemma repeat_dot:
  "s = u @ w @ v \<Longrightarrow> \<forall>x \<in> set w. \<not> is_line_terminator x \<Longrightarrow> length w \<le> rounds \<Longrightarrow>
     (length (u @ w), caps) \<in> set (repeat (matcher Dot s) rounds (length u, caps))"
proof (induction w arbitrary: u rounds)
  case Nil
  then show ?case by (simp add: repeat_exit)
next
  case (Cons x w)
  then obtain r where r: "rounds = Suc r" "length w \<le> r" by (cases rounds) auto
  have body: "(length (u @ [x]), caps) \<in> set (matcher Dot s (length u, caps))"
    by (rule dot_step [where v = "w @ v"]) (simp_all add: Cons.prems)
  have "(length ((u @ [x]) @ w), caps) \<in> set (repeat (matcher Dot s) r (length (u @ [x]), caps))"
    using Cons.prems r by (intro Cons.IH) simp_all
  then have "(length (u @ x # w), caps) \<in> set (repeat (matcher Dot s) r (length (u @ [x]), caps))"
    by simp
  from repeat_round [OF body _ this] show ?case unfolding r(1) by simp
qed

lemma star_dot_step:
  assumes "s = u @ w @ v" and "\<forall>x \<in> set w. \<not> is_line_terminator x"
  shows "(length (u @ w), caps) \<in> set (matcher (Star Dot) s (length u, caps))"
proof -
  have "length w \<le> length s - length u" using assms(1) by simp
  from repeat_dot [OF assms this, of caps] show ?thesis by (simp add: matcher.simps)
qed

lemma tail_yml:
  assumes "s = u @ ''yml'' @ v"
  shows "matcher (Then (Chr CHR ''y'') (Then (Opt (Chr CHR ''a'')) (Then (Chr CHR ''m'') (Chr CHR ''l'')))) s (length u, caps) \<noteq> []"
proof -
  have 1: "(length (u @ ''y''), caps) \<in> set (matcher (Chr CHR ''y'') s (length u, caps))"
    by (rule chr_step [where v = "''ml'' @ v"]) (simp add: assms)
  have 2: "(length (u @ ''y''), caps) \<in> set (matcher (Opt (Chr CHR ''a'')) s (length (u @ ''y''), caps))"
    by (rule opt_skip)
  have 3: "(length ((u @ ''y'') @ ''m''), caps) \<in> set (matcher (Chr CHR ''m'') s (length (u @ ''y''), caps))"
    by (rule chr_step [where v = "''l'' @ v"]) (simp add: assms)
  have 4: "(length (((u @ ''y'') @ ''m'') @ ''l''), caps) \<in>
      set (matcher (Chr CHR ''l'') s (length ((u @ ''y'') @ ''m''), caps))"
    by (rule chr_step [where v = v]) (simp add: assms)
  from then_step [OF 1 then_step [OF 2 then_step [OF 3 4]]]
  show ?thesis by (rule mem_nonempty)
qed

lemma tail_yaml:
  assumes "s = u @ ''yaml'' @ v"
  shows "matcher (Then (Chr CHR ''y'') (Then (Opt (Chr CHR ''a'')) (Then (Chr CHR ''m'') (Chr CHR ''l'')))) s (length u, caps) \<noteq> []"
proof -
  have 1: "(length (u @ ''y''), caps) \<in> set (matcher (Chr CHR ''y'') s (length u, caps))"
    by (rule chr_step [where v = "''aml'' @ v"]) (simp add: assms)
  have "(length ((u @ ''y'') @ ''a''), caps) \<in> set (matcher (Chr CHR ''a'') s (length (u @ ''y''), caps))"
    by (rule chr_step [where v = "''ml'' @ v"]) (simp add: assms)
  then have 2: "(length ((u @ ''y'') @ ''a''), caps) \<in>
      set (matcher (Opt (Chr CHR ''a'')) s (length (u @ ''y''), caps))"
    by (rule opt_take) simp
  have 3: "(length (((u @ ''y'') @ ''a'') @ ''m''), caps) \<in>
      set (matcher (Chr CHR ''m'') s (length ((u @ ''y'') @ ''a''), caps))"
    by (rule chr_step [where v = "''l'' @ v"]) (simp add: assms)
  have 4: "(length ((((u @ ''y'') @ ''a'') @ ''m'') @ ''l''), caps) \<in>
      set (matcher (Chr CHR ''l'') s (length (((u @ ''y'') @ ''a'') @ ''m''), caps))"
    by (rule chr_step [where v = v]) (simp add: assms)
  from then_step [OF 1 then_step [OF 2 then_step [OF 3 4]]]
  show ?thesis by (rule mem_nonempty)
qed

lemma workflow_regex_reaches:
  assumes name: "\<forall>x \<in> set name. \<not> is_line_terminator x"
    and ext: "ext = ''yml'' \<or> ext = ''yaml''"
    and s: "s = d @ ''.github/workflows/'' @ name @ ''.'' @ ext"
  shows "matcher workflow_regex s (length d, caps) \<noteq> []"
proof -
  let ?w = "''github/workflows/''"
  let ?u2 = "(d @ ''.'') @ ?w"
  let ?c2 = "caps(2 := Some (length ?u2, length (?u2 @ name)))"
  let ?r2 = "Then (Group 2 (Star Dot)) (Then Dot (Then (Chr CHR ''y'') (Then (Opt (Chr CHR ''a'')) (Then (Chr CHR ''m'') (Chr CHR ''l'')))))"
  have t0: "(length d, caps) \<in> set (matcher (Opt (Group 1 (Star Dot))) s (length d, caps))"
    by (rule opt_skip)
  have t1: "(length (d @ ''.''), caps) \<in> set (matcher Dot s (length d, caps))"
    by (rule dot_step [where v = "?w @ name @ ''.'' @ ext"]) (simp_all add: s is_line_terminator_def)
  have "(length (?u2 @ name), caps) \<in> set (matcher (Star Dot) s (length ?u2, caps))"
    by (rule star_dot_step [where v = "''.'' @ ext"]) (simp_all add: s name)
  from group_step [OF this, of 2]
  have t3: "(length (?u2 @ name), ?c2) \<in> set (matcher (Group 2 (Star Dot)) s (length ?u2, caps))"
    by simp
  have t4: "(length ((?u2 @ name) @ ''.''), ?c2) \<in> set (matcher Dot s (length (?u2 @ name), ?c2))"
    by (rule dot_step [where v = ext]) (simp_all add: s is_line_terminator_def)
  have t5: "matcher (Then (Chr CHR ''y'') (Then (Opt (Chr CHR ''a'')) (Then (Chr CHR ''m'') (Chr CHR ''l'')))) s (length ((?u2 @ name) @ ''.''), ?c2) \<noteq> []"
    using ext
  proof
    assume "ext = ''yml''"
    then show ?thesis by (intro tail_yml [where v = "[]"]) (simp add: s)
  next
    assume "ext = ''yaml''"
    then show ?thesis by (intro tail_yaml [where v = "[]"]) (simp add: s)
  qed
  then obtain st' where st': "st' \<in> set (matcher (Then (Chr CHR ''y'') (Then (Opt (Chr CHR ''a'')) (Then (Chr CHR ''m'') (Chr CHR ''l'')))) s (length ((?u2 @ name) @ ''.''), ?c2))"
    by (cases "matcher (Then (Chr CHR ''y'') (Then (Opt (Chr CHR ''a'')) (Then (Chr CHR ''m'') (Chr CHR ''l'')))) s (length ((?u2 @ name) @ ''.''), ?c2)") auto
  have "st' \<in> set (matcher ?r2 s (length ?u2, caps))"
    by (rule then_step [OF t3 then_step [OF t4 st']])
  then have "st' \<in> set (matcher (lit ?w ?r2) s (length (d @ ''.''), caps))"
    by (rule lit_step [where v = "name @ ''.'' @ ext", rotated]) (simp add: s)
  then have "st' \<in> set (matcher workflow_regex s (length d, caps))"
    unfolding workflow_regex_def by (intro then_step [OF t0] then_step [OF t1])
  then show ?thesis by (rule mem_nonempty)
qed

lemma test_reaches:
  assumes "i \<le> length s" and "matcher r s (i, \<lambda>k. None) \<noteq> []"
  shows "test r s"
proof -
  have "match_at r s i \<noteq> None" using assms(2) by (simp add: match_at_def split: list.splits)
  moreover have "i \<in> set [0 ..< Suc (length s)]" using assms(1) by auto
  ultimately have "List.find (\<lambda>i. match_at r s i \<noteq> None) [0 ..< Suc (length s)] \<noteq> None"
    unfolding find_None_iff by blast
  then obtain j where "List.find (\<lambda>i. match_at r s i \<noteq> None) [0 ..< Suc (length s)] = Some j"
    by auto
  moreover from this have "match_at r s j \<noteq> None" by (auto dest: find_Some_mem)
  ultimately show ?thesis by (auto simp: test_def exec_def)
qed

lemma endsWith_append: "endsWith s suf \<Longrightarrow> \<exists>u. s = u @ suf"
  by (metis endsWith_def append_take_drop_id)

lemma toPosix_id: "\<forall>c \<in> set p. c \<noteq> CHR 0x5C \<Longrightarrow> toPosix p = p"
  unfolding toPosix_def by (induction p) auto

lemma workflow_glob_shape:
  assumes "workflow_glob p" and "\<forall>c \<in> set p. c \<noteq> CHR 0x5C"
  shows "\<exists>d name ext. (ext = ''yml'' \<or> ext = ''yaml'') \<and>
           p = d @ ''.github/workflows/'' @ name @ ''.'' @ ext"
proof -
  define fname where "fname = rev (takeWhile (\<lambda>c. c \<noteq> CHR ''/'') (rev p))"
  define dir where "dir = take (length p - length fname) p"
  have "rev p = takeWhile (\<lambda>c. c \<noteq> CHR ''/'') (rev p) @ dropWhile (\<lambda>c. c \<noteq> CHR ''/'') (rev p)"
    by simp
  then have "p = rev (dropWhile (\<lambda>c. c \<noteq> CHR ''/'') (rev p)) @ fname"
    unfolding fname_def by (metis rev_append rev_rev_ident)
  then have p: "p = dir @ fname"
    unfolding dir_def by (metis append_eq_conv_conj diff_add_inverse2 length_append)
  from assms have f: "endsWith fname ''.yaml'' \<or> endsWith fname ''.yml''"
    and d: "dir = ''.github/workflows/'' \<or> endsWith dir ''/.github/workflows/''"
    by (simp_all add: workflow_glob_def Let_def fname_def dir_def toPosix_id [OF assms(2)])
  from f obtain name ext where fe: "fname = name @ ''.'' @ ext" "ext = ''yml'' \<or> ext = ''yaml''"
    by (auto dest!: endsWith_append)
  from d obtain d0 where "dir = d0 @ ''.github/workflows/''"
  proof
    assume "dir = ''.github/workflows/''"
    then have "dir = [] @ ''.github/workflows/''" by simp
    then show ?thesis by (rule that)
  next
    assume "endsWith dir ''/.github/workflows/''"
    then obtain u where "dir = u @ ''/.github/workflows/''" by (auto dest!: endsWith_append)
    then have "dir = (u @ ''/'') @ ''.github/workflows/''" by simp
    then show ?thesis by (rule that)
  qed
  with p fe show ?thesis by auto
qed

text \<open>
  On a path written with \<^verbatim>\<open>/\<close> and without a line terminator the expression accepts
  whatever the glob rule accepts: on such paths the two differ only where the expression
  accepts more.
\<close>

lemma workflow_glob_test:
  assumes "workflow_glob (fileName document)"
    and "\<forall>c \<in> set (fileName document). c \<noteq> CHR 0x5C"
    and "\<forall>c \<in> set (fileName document). \<not> is_line_terminator c"
  shows "test workflow_regex (fileName document) \<and>
         getSupportedDocumentAst safeLoad document = simpleYamlParse safeLoad document"
proof -
  from workflow_glob_shape [OF assms(1,2)] obtain d name ext where
      ext: "ext = ''yml'' \<or> ext = ''yaml''"
    and p: "fileName document = d @ ''.github/workflows/'' @ name @ ''.'' @ ext"
    by blast
  have name: "\<forall>x \<in> set name. \<not> is_line_terminator x"
    using assms(3) unfolding p by simp
  have "matcher workflow_regex (fileName document) (length d, \<lambda>k. None) \<noteq> []"
    using name ext p by (rule workflow_regex_reaches)
  moreover have "length d \<le> length (fileName document)" unfolding p by simp
  ultimately have "test workflow_regex (fileName document)" by (rule test_reaches [rotated])
  then show ?thesis by (simp add: getSupportedDocumentAst_def)
qed

text \<open>
  The two guards of the queries: both return \<^verbatim>\<open>undefined\<close> when the file name does not
  pass the test of \<^verbatim>\<open>getSupportedDocumentAst\<close>, and when the loader returns
  \<^verbatim>\<open>undefined\<close>.
\<close>

lemma queries_guards:
  "(\<not> test workflow_regex (fileName document) \<longrightarrow>
      provideSingleLineRangeFromPosition safeLoad document position = Inr None \<and>
      getAllSingleLineCommandLocations safeLoad document = Inr None) \<and>
   (safeLoad (getText document) = Inr None \<longrightarrow>
      provideSingleLineRangeFromPosition safeLoad document position = Inr None \<and>
      getAllSingleLineCommandLocations safeLoad document = Inr None)"
  by (simp add: provideSingleLineRangeFromPosition_def getAllSingleLineCommandLocations_def
        getSupportedDocumentAst_def simpleYamlParse_def)

lemma plus_step:
  "st1 \<in> set (matcher r s st) \<Longrightarrow> st' \<in> set (repeat (matcher r s) (length s - fst st1) st1) \<Longrightarrow>
     st' \<in> set (matcher (Plus r) s st)"
  by (auto simp: matcher.simps)

lemma line_regex_header:
  assumes "s = CHR ''|'' # rest"
  shows "matcher line_regex s (0, caps) \<noteq> []"
proof -
  let ?w = "takeWhile (\<lambda>c. \<not> is_line_terminator c) rest"
  let ?v = "dropWhile (\<lambda>c. \<not> is_line_terminator c) rest"
  let ?c1 = "caps(1 := Some (0, 0))"
  let ?n = "length (''|'' @ ?w)"
  let ?c2 = "?c1(2 := Some (0, ?n))"
  have s: "s = ''|'' @ ?w @ ?v" using assms by simp
  have t0: "(0, caps) \<in> set (matcher LineStart s (0, caps))" by (simp add: matcher.simps)
  have "(0, caps) \<in> set (matcher (Star Space) s (0, caps))"
    by (simp add: matcher.simps repeat_exit)
  from group_step [OF this, of 1]
  have t1: "(0, ?c1) \<in> set (matcher (Group 1 (Star Space)) s (0, caps))" by simp
  have d: "(length ([] @ ''|''), ?c1) \<in> set (matcher Dot s (length ([] :: string), ?c1))"
    by (rule dot_step [where v = rest]) (simp_all add: assms is_line_terminator_def)
  have "(?n, ?c1) \<in> set (repeat (matcher Dot s) (length s - 1) (length ''|'', ?c1))"
    by (rule repeat_dot [where v = ?v]) (auto simp: assms length_takeWhile_le dest: set_takeWhileD)
  with d have "(?n, ?c1) \<in> set (matcher (Plus Dot) s (0, ?c1))"
    by (intro plus_step [where ?st1.0 = "(1, ?c1)"]) simp_all
  from group_step [OF this, of 2]
  have t2: "(?n, ?c2) \<in> set (matcher (Group 2 (Plus Dot)) s (0, ?c1))" by simp
  have "?n = length s \<or> is_line_terminator (s ! ?n)"
  proof (cases ?v)
    case Nil
    then show ?thesis using s by (metis append_Nil2 length_append)
  next
    case (Cons x xs)
    then have "is_line_terminator x" using hd_dropWhile [of "\<lambda>c. \<not> is_line_terminator c" rest] by auto
    moreover have "s ! ?n = x" using s Cons by (metis append_assoc nth_append_length)
    ultimately show ?thesis by simp
  qed
  then have t3: "(?n, ?c2) \<in> set (matcher LineEnd s (?n, ?c2))" by (auto simp: matcher.simps)
  have "(?n, ?c2) \<in> set (matcher line_regex s (0, caps))"
    unfolding line_regex_def
    by (rule then_step [OF t0 then_step [OF t1 then_step [OF t2 t3]]])
  then show ?thesis by (rule mem_nonempty)
qed

lemma matchAll_header:
  assumes "startsWith raw ''|''"
  shows "\<exists>m ms. matchAll line_regex raw = m # ms \<and> index m = 0"
proof -
  from assms obtain rest where raw: "raw = CHR ''|'' # rest"
    by (cases raw) (auto simp: startsWith_def)
  have "matcher line_regex raw (0, \<lambda>k. None) \<noteq> []" using raw by (rule line_regex_header)
  then have "match_at line_regex raw 0 \<noteq> None" by (simp add: match_at_def split: list.splits)
  then have "List.find (\<lambda>i. match_at line_regex raw i \<noteq> None) [0 ..< Suc (length raw)] = Some 0"
    by (simp add: upt_rec)
  then obtain st where "exec line_regex raw 0 = Some (RegExpMatch 0 (fst st) (snd st))"
    using \<open>match_at line_regex raw 0 \<noteq> None\<close> by (auto simp: exec_def)
  then show ?thesis
    unfolding matchAll_def by (subst matchAll_from.simps) simp
qed

section \<open>Claims about the collector and the locator\<close>

subsection \<open>C1: what the collector returns\<close>

text \<open>
  The collector against the chains its traversal follows, for every tree and pattern.
\<close>

lemma getAllMatchingNodes_chains:
  "getAllMatchingNodes root pattern = concat (map (matched codeKey pattern []) (chains root))"
  using collect_chains(1) [of "[]" 0 pattern root "[]"]
  by (simp add: getAllMatchingNodes_def)

text \<open>
  C1, as the code has it. Let the AST be built of the parser's node shapes, with every
  sequence the value of a mapping entry (the root is not a sequence, and no sequence is
  directly an item of another). Then for every pattern \<^verbatim>\<open>getAllMatchingNodes\<close> returns
  exactly the value-nodes of the keyed nodes of the AST whose key-path matches the pattern
  segment by segment (same length; each segment the wildcard \<^verbatim>\<open>*\<close> or equal to the key,
  compared as strings), in depth-first document order, where a node counts as keyed when
  its key is a non-empty string (\<open>codeKey\<close>). At a keyed node that matches the last
  segment of the pattern, in any tree, \<^verbatim>\<open>collect\<close> appends the value-node of that node
  and nothing else: the result does not depend on the children of the node, which are not
  visited.
\<close>

theorem getAllMatchingNodes_matching_values:
  "(item_shaped root \<longrightarrow>
      getAllMatchingNodes root pattern = ast_matching_values codeKey root pattern) \<and>
   (codeKey node = Some s \<and> Suc depth = length pattern \<and> segment_matches (pattern ! depth) s
      \<longrightarrow> collect pattern node depth acc = acc @ value_nodes node)"
proof (intro conjI impI)
  assume "item_shaped root"
  then show "getAllMatchingNodes root pattern = ast_matching_values codeKey root pattern"
    using shaped_chains [of root pattern "[]"]
    by (simp add: getAllMatchingNodes_chains ast_matching_values_def)
next
  assume h: "codeKey node = Some s \<and> Suc depth = length pattern \<and> segment_matches (pattern ! depth) s"
  then have "keyOf node = Some s" "truthy (keyOf node)" "depth < length pattern"
    by (auto simp: codeKey_Some truthy_def)
  then show "collect pattern node depth acc = acc @ value_nodes node"
    using h by (auto simp: Let_def segment_matches_def value_nodes_def split: option.splits)
qed

text \<open>
  The workflow of two steps: the pattern \<^verbatim>\<open>jobs.*.steps.run\<close> collects the scalars of the
  two \<^verbatim>\<open>run\<close> entries, in the order of the steps.
\<close>

theorem getAllMatchingNodes_matching_values_witness:
  "item_shaped ts_root \<and>
   codeKey ts_run2 = Some ''run'' \<and> Suc 3 = length enablePath \<and>
   segment_matches (enablePath ! 3) ''run'' \<and>
   ast_matching_values codeKey ts_root enablePath = [Node ts_block, Node ts_plain] \<and>
   getAllMatchingNodes ts_root enablePath = [Node ts_block, Node ts_plain] \<and>
   collect enablePath ts_run2 3 [Node ts_block] = [Node ts_block] @ value_nodes ts_run2"
proof -
  have i: "item_shaped ts_root" by code_simp
  have h: "codeKey ts_run2 = Some ''run'' \<and> Suc 3 = length enablePath \<and>
      segment_matches (enablePath ! 3) ''run''"
    by code_simp
  have e: "ast_matching_values codeKey ts_root enablePath = [Node ts_block, Node ts_plain]"
    by code_simp
  from getAllMatchingNodes_matching_values
         [of ts_root enablePath ts_run2 "''run''" 3 "[Node ts_block]"] i h e
  show ?thesis by metis
qed

text \<open>
  C1 as stated fails at two documents. It counts every key, so the entry with the empty
  key of \<^verbatim>\<open>"":\n  run: x\n\<close> contributes a segment: the key-path of \<^verbatim>\<open>run\<close> is the empty
  string followed by \<^verbatim>\<open>run\<close>, and no key-path of the document matches the pattern
  \<^verbatim>\<open>run\<close>; the code steps through the entry with the empty key as if it had none and
  returns the scalar. And it speaks of every AST root: in \<^verbatim>\<open>- run: x\n\<close> the key-path of
  the \<^verbatim>\<open>run\<close> entry is \<^verbatim>\<open>run\<close>, but the root is a sequence, whose \<^verbatim>\<open>items\<close> the code
  does not read, and it returns nothing.
\<close>

theorem getAllMatchingNodes_empty_key_counterexample:
  "item_shaped ek_root \<and>
   keys_of keyOf [ek_root, ek_entry, newMap 6 12 [ek_run], ek_run] = ['''', ''run''] \<and>
   ast_matching_values keyOf ek_root [''run''] = [] \<and>
   getAllMatchingNodes ek_root [''run''] = [Node ek_scalar] \<and>
   ast_matching_values keyOf sr_root [''run''] = [Node sr_scalar] \<and>
   getAllMatchingNodes sr_root [''run''] = []"
  by code_simp

subsection \<open>C10: the path of the locator\<close>

text \<open>
  C10, as the code has it. Let the spans of sibling nodes be pairwise disjoint. When the
  root's span contains the position, \<^verbatim>\<open>findNode\<close>, started with an empty path, returns
  the last node of a chain from the root all of whose nodes contain the position,
  together with exactly the non-empty keys of the nodes of that chain, root first; and
  that chain is the only chain from the root whose nodes all contain the position and
  whose last node has no child containing it. Nothing of a sibling that was tried and
  failed is left in the path. When the root's span does not contain the position, no node
  is returned and the path is empty.
\<close>

theorem findNode_path_keys_of_chain:
  assumes "siblings_disjoint root"
  shows "(in_span position root \<longrightarrow>
           (\<exists>c \<in> set (chains root).
              findNode root position = (Some (last c), keys_of codeKey c) \<and>
              (\<forall>m \<in> set c. in_span position m) \<and>
              (\<forall>c' \<in> set (chains root).
                 (\<forall>m \<in> set c'. in_span position m) \<and>
                 (\<forall>ch \<in> set (children (last c')). \<not> in_span position ch) \<longrightarrow> c' = c))) \<and>
         (\<not> in_span position root \<longrightarrow> findNode root position = (None, []))"
proof (intro conjI impI)
  assume inside: "in_span position root"
  let ?c = "descent position root"
  have "findNode root position = (Some (last ?c), keys_of codeKey ?c)"
    using inside by (simp add: findNode_def find_descent(1))
  moreover have "\<forall>m \<in> set ?c. in_span position m"
    using inside by (auto dest: descent_in_span)
  moreover have "\<forall>c' \<in> set (chains root).
       (\<forall>m \<in> set c'. in_span position m) \<and>
       (\<forall>ch \<in> set (children (last c')). \<not> in_span position ch) \<longrightarrow> c' = ?c"
    using assms by (auto intro: disjoint_chain_is_descent)
  ultimately show "\<exists>c \<in> set (chains root).
      findNode root position = (Some (last c), keys_of codeKey c) \<and>
      (\<forall>m \<in> set c. in_span position m) \<and>
      (\<forall>c' \<in> set (chains root).
         (\<forall>m \<in> set c'. in_span position m) \<and>
         (\<forall>ch \<in> set (children (last c')). \<not> in_span position ch) \<longrightarrow> c' = c)"
    using descent_chain [of position root] by blast
next
  assume "\<not> in_span position root"
  then show "findNode root position = (None, [])"
    by (simp add: findNode_def find_descent(1))
qed

text \<open>
  Offset 86 of the workflow of two steps lies in \<^verbatim>\<open>echo c\<close>, in the second step. The
  steps are siblings: the first is tried, does not contain the offset and leaves nothing
  in the path; the chain ends at the \<^verbatim>\<open>run\<close> entry of the second.
\<close>

theorem findNode_path_keys_of_chain_witness:
  "siblings_disjoint ts_root \<and> in_span 86 ts_root \<and>
   children ts_steps = [ts_step1, ts_step2] \<and> \<not> in_span 86 ts_step1 \<and>
   findNode ts_root 86 =
     (Some ts_run2, keys_of codeKey [ts_root, ts_jobs, ts_b, ts_steps, ts_step2, ts_run2]) \<and>
   keys_of codeKey [ts_root, ts_jobs, ts_b, ts_steps, ts_step2, ts_run2] =
     [''jobs'', ''b'', ''steps'', ''run'']"
proof -
  let ?c0 = "[ts_root, ts_jobs, ts_b, ts_steps, ts_step2, ts_run2]"
  have d: "siblings_disjoint ts_root" by code_simp
  have i: "in_span 86 ts_root" by code_simp
  have s: "children ts_steps = [ts_step1, ts_step2] \<and> \<not> in_span 86 ts_step1" by code_simp
  have c0: "?c0 \<in> set (chains ts_root)" by code_simp
  have s0: "\<forall>m \<in> set ?c0. in_span 86 m" by code_simp
  have l0: "\<forall>ch \<in> set (children (last ?c0)). \<not> in_span 86 ch" by code_simp
  have k0: "keys_of codeKey ?c0 = [''jobs'', ''b'', ''steps'', ''run'']" by code_simp
  from findNode_path_keys_of_chain [OF d, of 86] i
  obtain c where c: "findNode ts_root 86 = (Some (last c), keys_of codeKey c)"
    and u: "\<forall>c' \<in> set (chains ts_root).
         (\<forall>m \<in> set c'. in_span 86 m) \<and>
         (\<forall>ch \<in> set (children (last c')). \<not> in_span 86 ch) \<longrightarrow> c' = c"
    by blast
  from u c0 s0 l0 have "?c0 = c" by blast
  with c have "findNode ts_root 86 = (Some (last ?c0), keys_of codeKey ?c0)" by simp
  then show ?thesis using d i s k0 by simp
qed

text \<open>
  C10 as stated promises the keys of all keyed nodes of the chain. In
  \<^verbatim>\<open>"":\n  run: x\n\<close> the chain to the node returned for offset 8 passes the entry
  whose key is the empty string; the returned path holds \<^verbatim>\<open>run\<close> only.
\<close>

theorem findNode_empty_key_counterexample:
  "siblings_disjoint ek_root \<and>
   [ek_root, ek_entry, ek_run] \<in> set (chains ek_root) \<and>
   keys_of keyOf [ek_root, ek_entry, ek_run] = ['''', ''run''] \<and>
   findNode ek_root 8 = (Some ek_run, [''run''])"
  by code_simp

subsection \<open>C2: the node the locator returns\<close>

text \<open>
  C2, as the code has it. When the root's span contains the position, \<^verbatim>\<open>findNode\<close>
  returns the last node of the descent from the root that steps, at every node, to the
  first listed child whose span contains the position: the deepest node on that way, an
  earlier-listed child before a later one. The path returned holds the non-empty keys of
  the nodes of the descent, root first, the key of the returned node included. Let
  moreover the span of every child lie within the span of its parent and the spans of
  siblings be pairwise disjoint. Then for every node that is a leaf of the locator's
  child relation (it has no children: a scalar sequence item, or a mapping entry whose
  value is a scalar or absent) and is reached from the root by a chain, and for every
  position in the leaf's span (its ends included), \<^verbatim>\<open>findNode\<close> returns that leaf and
  the non-empty keys of the nodes of the chain.
\<close>

theorem findNode_leaf:
  "(in_span position root \<longrightarrow>
      findNode root position =
        (Some (last (descent position root)), keys_of codeKey (descent position root))) \<and>
   (spans_nested root \<and> siblings_disjoint root \<and> c \<in> set (chains root) \<and>
    children (last c) = [] \<and> in_span position (last c) \<longrightarrow>
      findNode root position = (Some (last c), keys_of codeKey c))"
proof (intro conjI impI)
  assume "in_span position root"
  then show "findNode root position =
      (Some (last (descent position root)), keys_of codeKey (descent position root))"
    by (simp add: findNode_def find_descent(1))
next
  assume a: "spans_nested root \<and> siblings_disjoint root \<and> c \<in> set (chains root) \<and>
    children (last c) = [] \<and> in_span position (last c)"
  then have c: "c \<in> set (chains root)" by simp
  have all: "\<forall>m \<in> set c. in_span position m"
    using a by (intro nested_chain_in_span [of root]) simp_all
  have "c \<noteq> []" using c by (rule chains_nonempty)
  then have "hd c \<in> set c" by simp
  then have root: "in_span position root"
    using all chains_hd [OF c] by auto
  have "c = descent position root"
    using a all by (intro disjoint_chain_is_descent) auto
  then show "findNode root position = (Some (last c), keys_of codeKey c)"
    using root by (simp add: findNode_def find_descent(1))
qed

text \<open>Offset 40 of the scenario: the leaf is the \<^verbatim>\<open>run\<close> entry.\<close>

theorem findNode_leaf_witness:
  "in_span 40 ex_root \<and>
   descent 40 ex_root = [ex_root, ex_jobs, ex_build, ex_steps, ex_step, ex_run] \<and>
   spans_nested ex_root \<and> siblings_disjoint ex_root \<and>
   [ex_root, ex_jobs, ex_build, ex_steps, ex_step, ex_run] \<in> set (chains ex_root) \<and>
   children ex_run = [] \<and> in_span 40 ex_run \<and>
   findNode ex_root 40 = (Some ex_run, [''jobs'', ''build'', ''steps'', ''run''])"
proof -
  let ?c0 = "[ex_root, ex_jobs, ex_build, ex_steps, ex_step, ex_run]"
  have r: "in_span 40 ex_root" by code_simp
  have e: "descent 40 ex_root = ?c0" by code_simp
  have n: "spans_nested ex_root" by code_simp
  have d: "siblings_disjoint ex_root" by code_simp
  have c0: "?c0 \<in> set (chains ex_root)" by code_simp
  have l: "children (last ?c0) = []" by code_simp
  have i: "in_span 40 (last ?c0)" by code_simp
  have k0: "keys_of codeKey ?c0 = [''jobs'', ''build'', ''steps'', ''run'']" by code_simp
  from findNode_leaf [of 40 ex_root ?c0] n d c0 l i k0
  have "findNode ex_root 40 = (Some ex_run, [''jobs'', ''build'', ''steps'', ''run''])" by simp
  then show ?thesis using r e n d c0 l i by simp
qed

text \<open>
  C2 as stated promises the scalar node itself. The block scalar of the scenario is the
  value of the \<^verbatim>\<open>run\<close> entry; \<^verbatim>\<open>find\<close> steps from an entry to the children of its
  value and never to the value, so for offset 53, strictly inside the scalar's span, the
  node returned is the entry, whose \<^verbatim>\<open>value\<close> is the scalar.
\<close>

theorem findNode_scalar_value_counterexample:
  "value' ex_run = Some (Node ex_scalar) \<and> children ex_scalar = [] \<and>
   startPosition ex_scalar < 53 \<and> 53 < endPosition ex_scalar \<and>
   findNode ex_root 53 = (Some ex_run, [''jobs'', ''build'', ''steps'', ''run'']) \<and>
   ex_run \<noteq> ex_scalar"
  by code_simp

section \<open>Claims about the decomposer\<close>

subsection \<open>C5: the ranges of a scalar\<close>

text \<open>
  C5. For a scalar whose raw value starts with \<^verbatim>\<open>|\<close>, \<^verbatim>\<open>getNodeCommandRanges\<close> drops the
  first match of the line expression, which is the match at index 0, the header line,
  and emits, for each remaining match in order, the
  range that starts at \<^verbatim>\<open>valueNode.startPosition + matchIndex + leadingWhitespaceLength\<close>
  and ends \<^verbatim>\<open>contentLength\<close> further; it does not raise. For the raw value
  \<^verbatim>\<open>|\n  echo a\n  echo b\n\<close> these are exactly two ranges, from offset 4 to 10 and from
  13 to 19 of the raw value, which hold \<^verbatim>\<open>echo a\<close> and \<^verbatim>\<open>echo b\<close> without their
  indentation. For a raw value that does not start with \<^verbatim>\<open>|\<close> it emits exactly one
  range, from the value's start position to its end position.
\<close>

theorem getNodeCommandRanges_ranges:
  "(rawValue v = Some raw \<and> startsWith raw ''|'' \<longrightarrow>
      (\<exists>m ms ranges. matchAll line_regex raw = m # ms \<and> index m = 0 \<and>
         getNodeCommandRanges document (Node v) = Inr ranges \<and>
         list_all2 (emitted_for document v) ms ranges)) \<and>
   (rawValue v = Some ''|\<newline>  echo a\<newline>  echo b\<newline>'' \<longrightarrow>
      getNodeCommandRanges document (Node v) =
        Inr [newRange (positionAt document (startPosition v + 4))
                      (positionAt document (startPosition v + 10)),
             newRange (positionAt document (startPosition v + 13))
                      (positionAt document (startPosition v + 19))]) \<and>
   take 6 (drop 4 ''|\<newline>  echo a\<newline>  echo b\<newline>'') = ''echo a'' \<and>
   take 6 (drop 13 ''|\<newline>  echo a\<newline>  echo b\<newline>'') = ''echo b'' \<and>
   (rawValue v = Some raw \<and> \<not> startsWith raw ''|'' \<longrightarrow>
      getNodeCommandRanges document (Node v) =
        Inr [newRange (positionAt document (startPosition v))
                      (positionAt document (endPosition v))])"
proof (intro conjI impI)
  assume a: "rawValue v = Some raw \<and> startsWith raw ''|''"
  then obtain ranges where r: "getNodeCommandRanges document (Node v) = Inr ranges"
    "list_all2 (\<lambda>m r. emitted_for document v m r \<and> content_nonempty m)
       (tl (matchAll line_regex raw)) ranges"
    using block_ranges [of v raw document] by auto
  from a obtain m ms where m: "matchAll line_regex raw = m # ms" "index m = 0"
    using matchAll_header [of raw] by auto
  from r(2) have "list_all2 (emitted_for document v) ms ranges"
    unfolding m(1) by (auto elim: list_all2_mono)
  with r(1) m show "\<exists>m ms ranges. matchAll line_regex raw = m # ms \<and> index m = 0 \<and>
         getNodeCommandRanges document (Node v) = Inr ranges \<and>
         list_all2 (emitted_for document v) ms ranges"
    by blast
next
  assume raw: "rawValue v = Some ''|\<newline>  echo a\<newline>  echo b\<newline>''"
  have m: "map (\<lambda>m. (index m, group_length m 1, group_length m 2))
             (tl (matchAll line_regex ''|\<newline>  echo a\<newline>  echo b\<newline>'')) =
           [(2, Some 2, Some 6), (11, Some 2, Some 6)]"
    by code_simp
  have s: "startsWith ''|\<newline>  echo a\<newline>  echo b\<newline>'' ''|''" by code_simp
  show "getNodeCommandRanges document (Node v) =
        Inr [newRange (positionAt document (startPosition v + 4))
                      (positionAt document (startPosition v + 10)),
             newRange (positionAt document (startPosition v + 13))
                      (positionAt document (startPosition v + 19))]"
    using raw s line_ranges_two [OF m, of document v]
    by (simp add: getNodeCommandRanges_def add.commute)
next
  show "take 6 (drop 4 ''|\<newline>  echo a\<newline>  echo b\<newline>'') = ''echo a''" by simp
  show "take 6 (drop 13 ''|\<newline>  echo a\<newline>  echo b\<newline>'') = ''echo b''" by simp
next
  assume "rawValue v = Some raw \<and> \<not> startsWith raw ''|''"
  then show "getNodeCommandRanges document (Node v) =
        Inr [newRange (positionAt document (startPosition v))
                      (positionAt document (endPosition v))]"
    by (simp add: getNodeCommandRanges_def)
qed

text \<open>
  The example as a document of its own, and the plain scalar \<^verbatim>\<open>echo c\<close> of the workflow
  of two steps.
\<close>

theorem getNodeCommandRanges_ranges_witness:
  "rawValue ab_scalar = Some ''|\<newline>  echo a\<newline>  echo b\<newline>'' \<and>
   startsWith ''|\<newline>  echo a\<newline>  echo b\<newline>'' ''|'' \<and>
   getNodeCommandRanges ab_document (Node ab_scalar) =
     Inr [Range (Position 1 2) (Position 1 8), Range (Position 2 2) (Position 2 8)] \<and>
   rawValue ts_plain = Some ''echo c'' \<and> \<not> startsWith ''echo c'' ''|'' \<and>
   getNodeCommandRanges ts_document (Node ts_plain) = Inr [Range (Position 6 13) (Position 6 19)]"
proof -
  have h1: "rawValue ab_scalar = Some ''|\<newline>  echo a\<newline>  echo b\<newline>''" by code_simp
  have h2: "startsWith ''|\<newline>  echo a\<newline>  echo b\<newline>'' ''|''" by code_simp
  have r1: "newRange (positionAt ab_document (startPosition ab_scalar + 4))
                     (positionAt ab_document (startPosition ab_scalar + 10)) =
            Range (Position 1 2) (Position 1 8)"
    by code_simp
  have r2: "newRange (positionAt ab_document (startPosition ab_scalar + 13))
                     (positionAt ab_document (startPosition ab_scalar + 19)) =
            Range (Position 2 2) (Position 2 8)"
    by code_simp
  have h3: "rawValue ts_plain = Some ''echo c'' \<and> \<not> startsWith ''echo c'' ''|''" by code_simp
  have r3: "newRange (positionAt ts_document (startPosition ts_plain))
                     (positionAt ts_document (endPosition ts_plain)) =
            Range (Position 6 13) (Position 6 19)"
    by code_simp
  have a: "getNodeCommandRanges ab_document (Node ab_scalar) =
     Inr [Range (Position 1 2) (Position 1 8), Range (Position 2 2) (Position 2 8)]"
    using getNodeCommandRanges_ranges [of ab_scalar "''|''" ab_document] h1 r1 r2
    by (simp only: simp_thms)
  have b: "getNodeCommandRanges ts_document (Node ts_plain) = Inr [Range (Position 6 13) (Position 6 19)]"
    using getNodeCommandRanges_ranges [of ts_plain "''echo c''" ts_document] h3 r3
    by (simp only: simp_thms)
  from h1 h2 h3 a b show ?thesis by (simp only: simp_thms)
qed

subsection \<open>C6: a line of blanks in a block scalar\<close>

text \<open>
  C6, as the code has it. The content group \<^verbatim>\<open>(.+)\<close> of the line expression never
  captures the empty string: in every match on every string it took part and holds at
  least one character. So for every block scalar each emitted range ends at least one
  offset after its start, and no line is emitted as a range of length zero.
\<close>

theorem block_scalar_content_nonempty:
  "(\<forall>m \<in> set (matchAll line_regex s). content_nonempty m) \<and>
   (rawValue v = Some raw \<and> startsWith raw ''|'' \<longrightarrow>
      (\<exists>ranges. getNodeCommandRanges document (Node v) = Inr ranges \<and>
         list_all2 (\<lambda>m r. emitted_for document v m r \<and> content_nonempty m)
           (tl (matchAll line_regex raw)) ranges))"
proof (intro conjI impI ballI)
  fix m assume "m \<in> set (matchAll line_regex s)"
  from line_match_groups [OF this] show "content_nonempty m"
    by (auto simp: content_nonempty_def)
next
  assume "rawValue v = Some raw \<and> startsWith raw ''|''"
  then show "\<exists>ranges. getNodeCommandRanges document (Node v) = Inr ranges \<and>
         list_all2 (\<lambda>m r. emitted_for document v m r \<and> content_nonempty m)
           (tl (matchAll line_regex raw)) ranges"
    using block_ranges [of v raw document] by simp
qed

text \<open>The block scalar with a line of blanks.\<close>

theorem block_scalar_content_nonempty_witness:
  "rawValue bl_scalar = Some bl_text \<and> startsWith bl_text ''|'' \<and>
   list_all content_nonempty (matchAll line_regex bl_text) \<and>
   (\<exists>ranges. getNodeCommandRanges bl_document (Node bl_scalar) = Inr ranges \<and>
      list_all2 (\<lambda>m r. emitted_for bl_document bl_scalar m r \<and> content_nonempty m)
        (tl (matchAll line_regex bl_text)) ranges)"
proof -
  have h: "rawValue bl_scalar = Some bl_text \<and> startsWith bl_text ''|''" by code_simp
  from block_scalar_content_nonempty [of bl_text bl_scalar bl_text bl_document] h
  show ?thesis by (simp add: list_all_iff)
qed

text \<open>
  C6 as stated promises a range of length zero for the line of blanks. The decomposer
  emits two ranges for \<^verbatim>\<open>|\n  echo a\n   \n  echo b\n\<close>, on lines 1 and 3, and none on
  line 2: \<^verbatim>\<open>\s*\<close> also matches line breaks, so the match that starts at the line of
  blanks (index 11) takes the three blanks, the line break and the indentation of the
  next line as its leading white space, six characters, and \<^verbatim>\<open>echo b\<close> as its content.
\<close>

theorem blank_line_counterexample:
  "rawValue bl_scalar = Some ''|\<newline>  echo a\<newline>   \<newline>  echo b\<newline>'' \<and>
   map (\<lambda>m. (index m, group_length m 1, group_length m 2))
     (tl (matchAll line_regex ''|\<newline>  echo a\<newline>   \<newline>  echo b\<newline>'')) =
     [(2, Some 2, Some 6), (11, Some 6, Some 6)] \<and>
   getNodeCommandRanges bl_document (Node bl_scalar) =
     Inr [Range (Position 1 2) (Position 1 8), Range (Position 3 2) (Position 3 8)]"
  by code_simp

section \<open>Claims about the two queries\<close>

subsection \<open>C4: the enumerate-all query\<close>



subsection \<open>C9: the queries on a file that is not a workflow\<close>

text \<open>
  C9 on a document that is not a workflow file. The file \<^verbatim>\<open>/repo/github/workflows/ci.yml\<close>
  is not under a \<^verbatim>\<open>.github/workflows/\<close> directory and the selector refuses it. The test of
  \<^verbatim>\<open>getSupportedDocumentAst\<close> accepts it, its first dot standing for the \<^verbatim>\<open>/\<close> before
  \<^verbatim>\<open>github\<close>, and both queries answer as for a workflow file: the point query returns
  the range of the command and the enumeration returns one range, where C9 has them
  return nothing. With the text of the workflow whose \<^verbatim>\<open>run\<close> holds a sequence, the point
  query raises a \<^verbatim>\<open>TypeError\<close> on that file, where C9 has it never raise.
\<close>

theorem queries_on_unrecognised_document:
  "workflow_glob (fileName (lf_document plain_path ex_text)) = False \<and>
   test workflow_regex (fileName (lf_document plain_path ex_text)) \<and>
   provideSingleLineRangeFromPosition (loads ex_text ex_root)
     (lf_document plain_path ex_text) (Position 4 12) =
     Inr (Some (Range (Position 4 10) (Position 4 17))) \<and>
   getAllSingleLineCommandLocations (loads ex_text ex_root) (lf_document plain_path ex_text) =
     Inr (Some [Range (Position 4 10) (Position 4 17)]) \<and>
   provideSingleLineRangeFromPosition (loads sq_text sq_root)
     (lf_document plain_path sq_text) (Position 3 19) = Inl TypeError"
  by code_simp

subsection \<open>C3: the point query\<close>

text \<open>
  C3 at a step whose \<^verbatim>\<open>run\<close> holds a sequence. The position is the blank after the comma
  of \<^verbatim>\<open>run: [echo, hi]\<close>: the locator returns the \<^verbatim>\<open>run\<close> entry with the path
  \<^verbatim>\<open>jobs.build.steps.run\<close>, the offset lies in the span of the entry's value, and the
  value, a sequence, has no raw text. The query raises a \<^verbatim>\<open>TypeError\<close> where C3 has it
  return \<^verbatim>\<open>undefined\<close>. Where the value of the located node is a scalar, the query
  does what C3 says (\<open>provideSingleLineRangeFromPosition_scalar_value\<close>).
\<close>

theorem provideSingleLineRangeFromPosition_sequence_value:
  "test workflow_regex (fileName sq_document) \<and>
   offsetAt sq_document (Position 3 19) = 45 \<and>
   findNode sq_root 45 = (Some sq_run, [''jobs'', ''build'', ''steps'', ''run'']) \<and>
   value' sq_run = Some (Node sq_seq) \<and> rawValue sq_seq = None \<and>
   startPosition sq_seq \<le> 45 \<and> 45 \<le> endPosition sq_seq \<and>
   provideSingleLineRangeFromPosition (loads sq_text sq_root) sq_document (Position 3 19) =
     Inl TypeError"
  by code_simp

section \<open>Claims about the recognition test and the bridge\<close>

subsection \<open>C7: the recognition test against the selector\<close>

text \<open>
  C7 fails in both directions. The expression of \<^verbatim>\<open>getSupportedDocumentAst\<close> has a literal
  \<^verbatim>\<open>/\<close>, dots that stand for any character, and no anchor at the end. The workflow file
  \<^verbatim>\<open>c:\repo\.github\workflows\ci.yml\<close> is accepted by the glob rule and refused by the
  expression: the loader is not called and the document has no tree. A backup copy
  \<^verbatim>\<open>ci.yml.bak\<close> of a workflow file and a YAML file under \<^verbatim>\<open>github/workflows\<close> are refused
  by the glob rule and accepted by the expression: the loader is called for them.
\<close>

theorem workflow_regex_diverges:
  "workflow_glob win_path \<and>
   test workflow_regex win_path = False \<and>
   getSupportedDocumentAst (loads ex_text ex_root) (lf_document win_path ex_text) = Inr None \<and>
   workflow_glob backup_path = False \<and>
   test workflow_regex backup_path \<and>
   getSupportedDocumentAst (loads ex_text ex_root) (lf_document backup_path ex_text) =
     Inr (Some ex_root) \<and>
   workflow_glob plain_path = False \<and>
   test workflow_regex plain_path \<and>
   getSupportedDocumentAst (loads ex_text ex_root) (lf_document plain_path ex_text) =
     Inr (Some ex_root)"
  by code_simp

subsection \<open>C8: one registration\<close>

text \<open>
  C8. Once the flag is set, an invocation of \<^verbatim>\<open>registerFigSupport\<close> changes nothing: it
  returns before the activation, and so does every later one. From the initial state, in
  every sequence of invocations the flag goes from unset to set at most once and never
  back, \<^verbatim>\<open>activate\<close> is called at most once and \<^verbatim>\<open>registerLanguageSupport\<close> at most once.
\<close>

theorem registerFigSupport_once:
  "(figSupportRegistered st \<longrightarrow>
      registerFigSupport ev st = st \<and> invocations evs st = st) \<and>
   transitions evs initial \<le> 1 \<and> reverts evs initial = 0 \<and>
   activations (invocations evs initial) \<le> 1 \<and>
   registrations (invocations evs initial) \<le> 1"
proof -
  have "activations (invocations evs initial) = (if figSupportRegistered (invocations evs initial) then 1 else 0) \<and>
        registrations (invocations evs initial) \<le> activations (invocations evs initial)"
    by (rule calls_invariant) (simp_all add: initial_def)
  then have "activations (invocations evs initial) \<le> 1 \<and> registrations (invocations evs initial) \<le> 1"
    by (auto split: if_splits)
  then show ?thesis
    using transitions_le [of evs initial] by (simp add: registered_fixed registered_invocations)
qed

text \<open>Three focus changes to a workflow file: one transition, one registration.\<close>

theorem registerFigSupport_once_witness:
  "figSupportRegistered (registerFigSupport focus initial) \<and>
   registerFigSupport focus (registerFigSupport focus initial) = registerFigSupport focus initial \<and>
   invocations [focus, focus, focus] (registerFigSupport focus initial) =
     registerFigSupport focus initial \<and>
   transitions [focus, focus, focus] initial = 1 \<and>
   registrations (invocations [focus, focus, focus] initial) = 1 \<and>
   activations (invocations [focus, focus, focus] initial) = 1"
proof -
  have h: "figSupportRegistered (registerFigSupport focus initial)" by code_simp
  have t: "transitions [focus, focus, focus] initial = 1" by code_simp
  have r: "registrations (invocations [focus, focus, focus] initial) = 1" by code_simp
  have a: "activations (invocations [focus, focus, focus] initial) = 1" by code_simp
  from registerFigSupport_once [of "registerFigSupport focus initial" focus "[focus, focus, focus]"] h t r a
  show ?thesis by (simp only: simp_thms)
qed

end
